theory Spec2Isabelle
  imports Main
begin

section \<open>Strings\<close>

text \<open>
  A Python \<open>str\<close> is a sequence of code points. It is modelled as \<^typ>\<open>string\<close>, a
  list of \<^typ>\<open>char\<close>, each \<^typ>\<open>char\<close> standing for the code point of the same number
  (0 to 255). File names with code points above 255 are outside the model.
\<close>

text \<open>
  \<open>str.lower\<close>, one code point at a time. Below 256 Python lowers exactly the letters
  \<open>A\<close> to \<open>Z\<close> (65 to 90) and the Latin-1 capitals 192 to 222 other than the
  multiplication sign 215, each to the code point 32 above it.
\<close>

definition lower_char :: "char \<Rightarrow> char" where
  "lower_char c =
     (let n = (of_char c :: nat)
      in if (65 \<le> n \<and> n \<le> 90) \<or> (192 \<le> n \<and> n \<le> 222 \<and> n \<noteq> 215)
         then char_of (n + 32) else c)"

definition lower :: "string \<Rightarrow> string" where
  "lower s = map lower_char s"

text \<open>\<open>s.rfind(c)\<close> for a single character: the highest index of \<open>c\<close>, or \<open>-1\<close>.\<close>

primrec rfind :: "string \<Rightarrow> char \<Rightarrow> int" where
  "rfind [] c = -1"
| "rfind (x # xs) c =
     (let r = rfind xs c in if 0 \<le> r then r + 1 else if x = c then 0 else -1)"

text \<open>\<open>s.startswith(t)\<close> and \<open>s.endswith(t)\<close>.\<close>

definition startswith :: "string \<Rightarrow> string \<Rightarrow> bool" where
  "startswith s t = (take (length t) s = t)"

definition endswith :: "string \<Rightarrow> string \<Rightarrow> bool" where
  "endswith s t = (length t \<le> length s \<and> drop (length s - length t) s = t)"

text \<open>\<open>s.rstrip('/')\<close>.\<close>

definition rstrip_sep :: "string \<Rightarrow> string" where
  "rstrip_sep s = rev (dropWhile (\<lambda>c. c = CHR ''/'') (rev s))"

text \<open>
  \<open>str(n)\<close> for a counter \<open>n \<ge> 0\<close>: its decimal digits. The counter of
  \<open>resolve_duplicate\<close> starts at 1 and only grows, and a Python \<open>int\<close> has no upper
  bound, so it is a \<^typ>\<open>nat\<close>.
\<close>

definition digit_char :: "nat \<Rightarrow> char" where
  "digit_char d = char_of (48 + d)"

fun str :: "nat \<Rightarrow> string" where
  "str n = (if n < 10 then [digit_char n] else str (n div 10) @ [digit_char (n mod 10)])"

declare str.simps [simp del]

section \<open>os.path\<close>

text \<open>
  The POSIX \<open>os.path.splitext\<close> is \<open>genericpath._splitext(p, '/', None, '.')\<close>:
  \<^verbatim>\<open>
    sepIndex = p.rfind(sep)
    dotIndex = p.rfind(extsep)
    if dotIndex > sepIndex:
        filenameIndex = sepIndex + 1
        while filenameIndex < dotIndex:
            if p[filenameIndex:filenameIndex+1] != extsep:
                return p[:dotIndex], p[dotIndex:]
            filenameIndex += 1
    return p, p[:0]
  \<close>
  The loop is \<open>splitext_loop\<close>; it gives \<open>None\<close> when it ends without returning.
\<close>

function splitext_loop :: "string \<Rightarrow> int \<Rightarrow> int \<Rightarrow> (string \<times> string) option" where
  "splitext_loop p filenameIndex dotIndex =
     (if filenameIndex < dotIndex then
        (if take 1 (drop (nat filenameIndex) p) \<noteq> ''.''
         then Some (take (nat dotIndex) p, drop (nat dotIndex) p)
         else splitext_loop p (filenameIndex + 1) dotIndex)
      else None)"
  by pat_completeness auto
termination
  by (relation "measure (\<lambda>(p, filenameIndex, dotIndex). nat (dotIndex - filenameIndex))") auto

declare splitext_loop.simps [simp del]

definition splitext :: "string \<Rightarrow> string \<times> string" where
  "splitext p =
     (let sepIndex = rfind p (CHR ''/'');
          dotIndex = rfind p (CHR ''.'')
      in if dotIndex > sepIndex then
           (case splitext_loop p (sepIndex + 1) dotIndex of
              Some r \<Rightarrow> r
            | None \<Rightarrow> (p, []))
         else (p, []))"

text \<open>
  \<open>posixpath.join(a, b)\<close> with one component \<open>b\<close>:
  \<^verbatim>\<open>
    path = a
    if b.startswith('/'): path = b
    elif not path or path.endswith('/'): path += b
    else: path += '/' + b
  \<close>
\<close>

definition join :: "string \<Rightarrow> string \<Rightarrow> string" where
  "join a b =
     (if startswith b ''/'' then b
      else if a = [] \<or> endswith a ''/'' then a @ b
      else a @ ''/'' @ b)"

text \<open>\<open>posixpath.basename\<close> and \<open>posixpath.dirname\<close>.\<close>

definition basename :: "string \<Rightarrow> string" where
  "basename p = drop (nat (rfind p (CHR ''/'') + 1)) p"

definition dirname :: "string \<Rightarrow> string" where
  "dirname p =
     (let head = take (nat (rfind p (CHR ''/'') + 1)) p
      in if head \<noteq> [] \<and> head \<noteq> replicate (length head) (CHR ''/'')
         then rstrip_sep head else head)"

text \<open>\<open>path.split('/')\<close> and \<open>'/'.join(comps)\<close>.\<close>

fun split_sep :: "string \<Rightarrow> string list" where
  "split_sep [] = [[]]"
| "split_sep (c # cs) =
     (if c = CHR ''/'' then [] # split_sep cs
      else (case split_sep cs of
              x # xs \<Rightarrow> (c # x) # xs
            | [] \<Rightarrow> [[c]]))"

fun sep_join :: "string list \<Rightarrow> string" where
  "sep_join [] = []"
| "sep_join [x] = x"
| "sep_join (x # y # ys) = x @ ''/'' @ sep_join (y # ys)"

text \<open>
  \<open>posixpath.normpath\<close>. Its loop over the components, one step:
  \<^verbatim>\<open>
    if comp in ('', '.'): continue
    if (comp != '..' or (not initial_slashes and not new_comps) or
         (new_comps and new_comps[-1] == '..')):
        new_comps.append(comp)
    elif new_comps:
        new_comps.pop()
  \<close>
\<close>

definition normpath_step :: "nat \<Rightarrow> string list \<Rightarrow> string \<Rightarrow> string list" where
  "normpath_step initial_slashes new_comps component =
     (if component = [] \<or> component = ''.'' then new_comps
      else if component \<noteq> ''..'' \<or> (initial_slashes = 0 \<and> new_comps = []) \<or>
              (new_comps \<noteq> [] \<and> last new_comps = ''..'')
      then new_comps @ [component]
      else if new_comps \<noteq> [] then butlast new_comps
      else new_comps)"

definition normpath :: "string \<Rightarrow> string" where
  "normpath path =
     (if path = [] then ''.''
      else
        let initial_slashes =
              (if startswith path ''/'' then
                 (if startswith path ''//'' \<and> \<not> startswith path ''///'' then 2 else 1)
               else 0);
            comps = split_sep path;
            new_comps = foldl (normpath_step initial_slashes) [] comps;
            path1 = sep_join new_comps;
            path2 = (if initial_slashes \<noteq> 0
                     then replicate initial_slashes (CHR ''/'') @ path1 else path1)
        in if path2 = [] then ''.'' else path2)"

text \<open>
  \<open>posixpath.abspath\<close>, with the working directory \<open>os.getcwd()\<close> as its first
  argument: a relative path is joined to it, and the result is normalised.
\<close>

definition abspath :: "string \<Rightarrow> string \<Rightarrow> string" where
  "abspath cwd path =
     normpath (if \<not> startswith path ''/'' then join cwd path else path)"

section \<open>The file system and the host\<close>

text \<open>
  The file system is a table from path strings to what is found there, a regular file or
  a directory, in the order in which the host lists it (\<open>os.listdir\<close> promises no
  order, so every order must be allowed for). A path is looked up as the program wrote
  it. Symbolic links, and changes made by other processes during a run, are not
  modelled.
\<close>

datatype kind = File | Dir

type_synonym filesystem = "(string \<times> kind) list"

definition path_exists :: "filesystem \<Rightarrow> string \<Rightarrow> bool" where
  "path_exists fs p = (map_of fs p \<noteq> None)"

definition isdir :: "filesystem \<Rightarrow> string \<Rightarrow> bool" where
  "isdir fs p = (map_of fs p = Some Dir)"

text \<open>
  The errors of the operating system that the program tells apart: \<open>PermissionError\<close>,
  and any other \<open>OSError\<close> (\<open>FileNotFoundError\<close>, \<open>shutil.Error\<close>, ...).
\<close>

datatype os_error = PermissionError | OSError

text \<open>
  What the program cannot see in the table is left to the host: the working directory,
  \<open>os.access(p, R_OK | W_OK)\<close>, and whether the operating system refuses to move a
  file or to create a directory for a reason of its own (permissions, a read-only or
  full volume).
\<close>

record host =
  cwd :: string
  access_rw :: "string \<Rightarrow> bool"
  move_refused :: "string \<Rightarrow> string \<Rightarrow> os_error option"
  mkdir_refused :: "string \<Rightarrow> os_error option"

text \<open>
  \<open>os.listdir(base)\<close>: the names of the entries directly in \<open>base\<close>, that is, the
  non-empty names without a separator that \<open>join\<close> puts below \<open>base\<close>.
\<close>

definition child_name :: "string \<Rightarrow> string \<Rightarrow> string option" where
  "child_name base p =
     (let prefix = join base []
      in if startswith p prefix \<and> length prefix < length p \<and>
            CHR ''/'' \<notin> set (drop (length prefix) p)
         then Some (drop (length prefix) p) else None)"

definition listdir :: "filesystem \<Rightarrow> string \<Rightarrow> string list" where
  "listdir fs base = List.map_filter (child_name base) (map fst fs)"

text \<open>
  \<open>os.rename(src, dst)\<close> on the table: the entry \<open>src\<close> is now \<open>dst\<close>, entries
  below a directory \<open>src\<close> follow it, and a file that was at \<open>dst\<close> is replaced.
\<close>

definition rename :: "filesystem \<Rightarrow> string \<Rightarrow> string \<Rightarrow> filesystem" where
  "rename fs src dst =
     map (\<lambda>(p, k).
            if p = src then (dst, k)
            else if isdir fs src \<and> startswith p (src @ ''/'')
            then (dst @ drop (length src) p, k)
            else (p, k))
         (filter (\<lambda>(p, k). p \<noteq> dst) fs)"

text \<open>
  \<open>shutil.move(src, dst)\<close>:
  \<^verbatim>\<open>
    real_dst = dst
    if os.path.isdir(dst):
        ...
        real_dst = os.path.join(dst, _basename(src))
        if os.path.exists(real_dst):
            raise Error("Destination path '%s' already exists" % real_dst)
    try:
        os.rename(src, real_dst)
    except OSError:
        ... copy_function(src, real_dst); os.unlink(src)
    return real_dst
  \<close>
  for a source that is not a directory, which is how \<open>organize_files\<close> calls it. The
  move fails with an \<open>OSError\<close> when the source is missing or the directory that is to
  hold \<open>real_dst\<close> is missing, and with the host's error when the host refuses it; a
  move that fails leaves the table as it was.
\<close>

definition move :: "host \<Rightarrow> filesystem \<Rightarrow> string \<Rightarrow> string \<Rightarrow> os_error + filesystem" where
  "move h fs src dst =
     (let real_dst = (if isdir fs dst then join dst (basename (rstrip_sep src)) else dst)
      in if isdir fs dst \<and> path_exists fs real_dst then Inl OSError
         else if \<not> path_exists fs src then Inl OSError
         else if \<not> isdir fs (dirname real_dst) then Inl OSError
         else (case move_refused h src real_dst of
                 Some e \<Rightarrow> Inl e
               | None \<Rightarrow> Inr (rename fs src real_dst)))"

text \<open>
  \<open>os.makedirs(folder, exist_ok=True)\<close> for a folder directly below an existing
  directory: nothing to do when the folder is there, \<open>FileExistsError\<close> when something
  else has its name, otherwise the directory is created unless the host refuses.
\<close>

definition makedirs :: "host \<Rightarrow> filesystem \<Rightarrow> string \<Rightarrow> os_error + filesystem" where
  "makedirs h fs folder =
     (if isdir fs folder then Inr fs
      else if path_exists fs folder then Inl OSError
      else (case mkdir_refused h folder of
              Some e \<Rightarrow> Inl e
            | None \<Rightarrow> Inr (fs @ [(folder, Dir)])))"

section \<open>Configuration\<close>

definition EXTENSION_MAP :: "(string \<times> string) list" where
  "EXTENSION_MAP =
     [(''.jpg'', ''Images''), (''.jpeg'', ''Images''), (''.png'', ''Images''),
      (''.gif'', ''Images''), (''.bmp'', ''Images''), (''.svg'', ''Images''),
      (''.webp'', ''Images''), (''.ico'', ''Images''), (''.tiff'', ''Images''),
      (''.heic'', ''Images''),
      (''.mp4'', ''Videos''), (''.avi'', ''Videos''), (''.mkv'', ''Videos''),
      (''.mov'', ''Videos''), (''.wmv'', ''Videos''), (''.flv'', ''Videos''),
      (''.webm'', ''Videos''),
      (''.pdf'', ''PDFs''),
      (''.doc'', ''Documents''), (''.docx'', ''Documents''), (''.txt'', ''Documents''),
      (''.rtf'', ''Documents''), (''.odt'', ''Documents''), (''.xls'', ''Documents''),
      (''.xlsx'', ''Documents''), (''.ppt'', ''Documents''), (''.pptx'', ''Documents''),
      (''.csv'', ''Documents''),
      (''.py'', ''Code''), (''.js'', ''Code''), (''.ts'', ''Code''), (''.html'', ''Code''),
      (''.css'', ''Code''), (''.java'', ''Code''), (''.c'', ''Code''), (''.cpp'', ''Code''),
      (''.h'', ''Code''), (''.rb'', ''Code''), (''.go'', ''Code''), (''.rs'', ''Code''),
      (''.php'', ''Code''), (''.swift'', ''Code''), (''.kt'', ''Code''), (''.sh'', ''Code''),
      (''.json'', ''Code''), (''.xml'', ''Code''), (''.yaml'', ''Code''), (''.yml'', ''Code''),
      (''.sql'', ''Code''), (''.md'', ''Code'')]"

definition CATEGORIES :: "string list" where
  "CATEGORIES = [''Images'', ''Videos'', ''PDFs'', ''Documents'', ''Code'', ''Others'']"

section \<open>Output\<close>

text \<open>
  What the program prints, one value for each \<open>print\<close>, with the names it puts into the
  text; the layout of the text is not modelled. \<open>Traceback\<close> is what the interpreter
  prints for an exception that nothing catches.
\<close>

datatype message =
    Usage
  | PathDoesNotExist string
  | NotADirectory string
  | InsufficientPermissions string
  | Scanning string
  | PermissionDenied string
  | OSErrorMoving string
  | AlreadyClean
  | SummaryTable "(string \<times> nat) list" nat
  | Done
  | Traceback

section \<open>Helper functions\<close>

text \<open>
  \<open>validate_path\<close>: \<open>Inl\<close> is the message printed before \<open>sys.exit(1)\<close> with the
  exit status, \<open>Inr\<close> the returned absolute path.
\<close>

definition validate_path :: "host \<Rightarrow> filesystem \<Rightarrow> string \<Rightarrow> (message \<times> nat) + string" where
  "validate_path h fs path =
     (let abs_path = abspath (cwd h) path
      in if \<not> path_exists fs abs_path then Inl (PathDoesNotExist abs_path, 1)
         else if \<not> isdir fs abs_path then Inl (NotADirectory abs_path, 1)
         else if \<not> access_rw h abs_path then Inl (InsufficientPermissions abs_path, 1)
         else Inr abs_path)"

text \<open>
  \<open>create_category_folders\<close>: the loop over the categories stops at the first error of
  \<open>os.makedirs\<close>, which the function does not catch; the folders made before it stay.
\<close>

fun create_folders :: "host \<Rightarrow> string \<Rightarrow> string list \<Rightarrow> filesystem \<Rightarrow> filesystem \<times> os_error option" where
  "create_folders h base_path [] fs = (fs, None)"
| "create_folders h base_path (category # rest) fs =
     (let folder = join base_path category
      in case makedirs h fs folder of
           Inl e \<Rightarrow> (fs, Some e)
         | Inr fs' \<Rightarrow> create_folders h base_path rest fs')"

definition create_category_folders :: "host \<Rightarrow> filesystem \<Rightarrow> string \<Rightarrow> filesystem \<times> os_error option" where
  "create_category_folders h fs base_path = create_folders h base_path CATEGORIES fs"

text \<open>\<open>EXTENSION_MAP.get(ext.lower(), "Others")\<close> on the extension of \<open>os.path.splitext\<close>.\<close>

definition get_category :: "string \<Rightarrow> string" where
  "get_category filename =
     (let ext = snd (splitext filename)
      in case map_of EXTENSION_MAP (lower ext) of
           Some category \<Rightarrow> category
         | None \<Rightarrow> ''Others'')"

definition is_hidden_or_system :: "string \<Rightarrow> bool" where
  "is_hidden_or_system filename = startswith filename ''.''"

text \<open>
  \<open>resolve_duplicate\<close>. \<open>pexists\<close> is \<open>os.path.exists\<close> at the time of the call. The
  \<open>while\<close> loop has no bound, so it is a partial function: \<open>None\<close> is the loop that
  never ends.
\<close>

partial_function (option) resolve_loop ::
  "(string \<Rightarrow> bool) \<Rightarrow> string \<Rightarrow> string \<Rightarrow> string \<Rightarrow> string \<Rightarrow> nat \<Rightarrow> string option" where
  "resolve_loop pexists destination_folder name ext dest counter =
     (if pexists dest then
        (let new_name = name @ ''_'' @ str counter @ ext
         in resolve_loop pexists destination_folder name ext
              (join destination_folder new_name) (counter + 1))
      else Some dest)"

declare resolve_loop.simps [code]

definition resolve_duplicate :: "(string \<Rightarrow> bool) \<Rightarrow> string \<Rightarrow> string \<Rightarrow> string option" where
  "resolve_duplicate pexists destination_folder filename =
     (let dest = join destination_folder filename
      in if \<not> pexists dest then Some dest
         else (let (name, ext) = splitext filename
               in resolve_loop pexists destination_folder name ext dest 1))"

text \<open>
  The \<open>k\<close>-th candidate path that \<open>resolve_duplicate\<close> probes for a file name: the
  stem, an underscore, the counter, the extension, inside the destination folder.
\<close>

definition candidate :: "string \<Rightarrow> string \<Rightarrow> nat \<Rightarrow> string" where
  "candidate destination_folder filename k =
     (let (name, ext) = splitext filename
      in join destination_folder (name @ ''_'' @ str k @ ext))"

section \<open>organize_files\<close>

text \<open>
  The summary is a dictionary in the order of \<open>CATEGORIES\<close>. \<open>summary[category] += 1\<close>
  finds its key, every category being a key from the start.
\<close>

type_synonym summary = "(string \<times> nat) list"

definition initial_summary :: summary where
  "initial_summary = map (\<lambda>cat. (cat, 0)) CATEGORIES"

definition increment :: "summary \<Rightarrow> string \<Rightarrow> summary" where
  "increment summary category =
     map (\<lambda>(cat, n). if cat = category then (cat, n + 1) else (cat, n)) summary"

definition summary_values :: "summary \<Rightarrow> nat list" where
  "summary_values summary = map snd summary"

text \<open>
  The state of the loop: the summary, what has been printed, and the file system.
  \<open>organize_entry\<close> is the body of the loop for one entry; it is \<open>None\<close> only if
  \<open>resolve_duplicate\<close> does not return.
\<close>

type_synonym run_state = "summary \<times> message list \<times> filesystem"

definition organize_entry :: "host \<Rightarrow> string \<Rightarrow> string \<Rightarrow> run_state \<Rightarrow> run_state option" where
  "organize_entry h base_path entry st =
     (case st of (summary, out, fs) \<Rightarrow>
        let src = join base_path entry
        in if isdir fs src then Some st
           else if is_hidden_or_system entry then Some st
           else
             let category = get_category entry;
                 dest_folder = join base_path category
             in case resolve_duplicate (path_exists fs) dest_folder entry of
                  None \<Rightarrow> None
                | Some dest_path \<Rightarrow>
                    (case move h fs src dest_path of
                       Inr fs' \<Rightarrow> Some (increment summary category, out, fs')
                     | Inl PermissionError \<Rightarrow> Some (summary, out @ [PermissionDenied entry], fs)
                     | Inl OSError \<Rightarrow> Some (summary, out @ [OSErrorMoving entry], fs)))"

fun organize_entries :: "host \<Rightarrow> string \<Rightarrow> string list \<Rightarrow> run_state \<Rightarrow> run_state option" where
  "organize_entries h base_path [] st = Some st"
| "organize_entries h base_path (entry # rest) st =
     (case organize_entry h base_path entry st of
        None \<Rightarrow> None
      | Some st' \<Rightarrow> organize_entries h base_path rest st')"

text \<open>
  \<open>organize_files\<close>: \<open>os.listdir\<close> raises when \<open>base_path\<close> is not a directory, and
  nothing catches it (\<open>Inl\<close>); otherwise the loop runs over the listing taken at the
  start.
\<close>

definition organize_files :: "host \<Rightarrow> filesystem \<Rightarrow> string \<Rightarrow> (os_error + run_state) option" where
  "organize_files h fs base_path =
     (if \<not> isdir fs base_path then Some (Inl OSError)
      else map_option Inr
             (organize_entries h base_path (listdir fs base_path) (initial_summary, [], fs)))"

section \<open>Output helpers and entry point\<close>

definition print_summary :: "summary \<Rightarrow> message list" where
  "print_summary summary =
     (let total = sum_list (summary_values summary)
      in if total = 0 then [AlreadyClean]
         else [SummaryTable (filter (\<lambda>(category, count). count > 0) summary) total])"

text \<open>
  \<open>main\<close>, from the argument vector \<open>sys.argv\<close>: the exit status of the process, what
  it printed, and the file system it leaves. An exception that nothing catches ends the
  process with status 1.
\<close>

definition main :: "host \<Rightarrow> filesystem \<Rightarrow> string list \<Rightarrow> (nat \<times> message list \<times> filesystem) option" where
  "main h fs argv =
     (if length argv \<noteq> 2 then Some (1, [Usage], fs)
      else
        case validate_path h fs (argv ! 1) of
          Inl (msg, status) \<Rightarrow> Some (status, [msg], fs)
        | Inr target_path \<Rightarrow>
            (case create_category_folders h fs target_path of
               (fs1, Some e) \<Rightarrow> Some (1, [Scanning target_path, Traceback], fs1)
             | (fs1, None) \<Rightarrow>
                 (case organize_files h fs1 target_path of
                    None \<Rightarrow> None
                  | Some (Inl e) \<Rightarrow> Some (1, [Scanning target_path, Traceback], fs1)
                  | Some (Inr (summary, out, fs2)) \<Rightarrow>
                      Some (0, [Scanning target_path] @ out @ print_summary summary @ [Done], fs2))))"

section \<open>The specification's reading of the extension\<close>

text \<open>
  The specification's words for the classifier: the extension is the substring from the
  last \<open>.\<close> to the end of the name, absent when the name has no \<open>.\<close>; it is lowered
  and looked up, with \<open>Others\<close> as the fallback.
\<close>

definition spec_extension :: "string \<Rightarrow> string" where
  "spec_extension filename =
     (if CHR ''.'' \<in> set filename
      then drop (nat (rfind filename (CHR ''.''))) filename else [])"

definition spec_classify :: "string \<Rightarrow> string" where
  "spec_classify filename =
     (case map_of EXTENSION_MAP (lower (spec_extension filename)) of
        Some category \<Rightarrow> category
      | None \<Rightarrow> ''Others'')"

text \<open>
  The last component of a path, and the condition under which \<open>os.path.splitext\<close> takes
  the text from the last \<open>.\<close> as the extension: no separator follows that \<open>.\<close>, and in
  the last component some character other than \<open>.\<close> comes before it.
\<close>

definition last_component :: "string \<Rightarrow> string" where
  "last_component p = rev (takeWhile (\<lambda>c. c \<noteq> CHR ''/'') (rev p))"

definition extension_counts :: "string \<Rightarrow> bool" where
  "extension_counts filename =
     (let ext = spec_extension filename;
          stem = take (length filename - length ext) filename
      in ext \<noteq> [] \<and> CHR ''/'' \<notin> set ext \<and>
         (\<exists>c\<in>set (last_component stem). c \<noteq> CHR ''.''))"

section \<open>Normal paths\<close>

text \<open>
  The components that \<open>normpath\<close> leaves, after \<open>n\<close> leading slashes: none is empty, a
  single dot or has a separator in it; a \<open>..\<close> comes only before every other component,
  and not at all below the root.
\<close>

definition norm_comps :: "nat \<Rightarrow> string list \<Rightarrow> bool" where
  "norm_comps n cs =
     ((\<forall>c\<in>set cs. c \<noteq> [] \<and> c \<noteq> ''.'' \<and> CHR ''/'' \<notin> set c) \<and>
      ''..'' \<notin> set (dropWhile (\<lambda>c. c = ''..'') cs) \<and>
      (n \<noteq> 0 \<longrightarrow> ''..'' \<notin> set cs))"

text \<open>
  The specification's words for what the validator returns, the canonical absolute form
  of a path: the one name of a directory, which starts with a single separator and is in
  normal form.
\<close>

definition spec_canonical :: "string \<Rightarrow> bool" where
  "spec_canonical p = (startswith p ''/'' \<and> \<not> startswith p ''//'' \<and> normpath p = p)"

section \<open>Notions for the properties of a run\<close>

text \<open>A name that a directory entry can have: not empty and without a separator.\<close>

definition valid_name :: "string \<Rightarrow> bool" where
  "valid_name n = (n \<noteq> [] \<and> CHR ''/'' \<notin> set n)"

text \<open>
  The paths that \<open>resolve_duplicate\<close> can return for an entry of the base directory:
  the entry's name inside its category folder, or one of its candidates there.
\<close>

definition is_destination :: "string \<Rightarrow> string \<Rightarrow> string \<Rightarrow> bool" where
  "is_destination base_path entry dst =
     (dst = join (join base_path (get_category entry)) entry \<or>
      (\<exists>k\<ge>1. dst = candidate (join base_path (get_category entry)) entry k))"

text \<open>The two messages that report a move that failed.\<close>

definition is_failure_report :: "message \<Rightarrow> bool" where
  "is_failure_report m =
     (case m of PermissionDenied entry \<Rightarrow> True | OSErrorMoving entry \<Rightarrow> True | _ \<Rightarrow> False)"

text \<open>The entry that a failure report names.\<close>

definition reported_entry :: "message \<Rightarrow> string" where
  "reported_entry m =
     (case m of PermissionDenied entry \<Rightarrow> entry | OSErrorMoving entry \<Rightarrow> entry | _ \<Rightarrow> [])"

text \<open>
  Between the file system before a run and the one after it, a path has \<open>moved\<close> away
  when something was there before and nothing is there after, and it has \<open>stayed\<close>
  when what is found there is the same.
\<close>

definition moved :: "filesystem \<Rightarrow> filesystem \<Rightarrow> string \<Rightarrow> bool" where
  "moved fs fs' p = (path_exists fs p \<and> \<not> path_exists fs' p)"

definition stayed :: "filesystem \<Rightarrow> filesystem \<Rightarrow> string \<Rightarrow> bool" where
  "stayed fs fs' p = (map_of fs' p = map_of fs p)"

text \<open>
  The state after the loop over a list of distinct valid names, against the state before
  it: the table is still a table; the names outside the list keep what they had; each
  name of the list has stayed, or was a visible non-directory and has moved away; no
  path changes between directory and not; the summary keeps its keys, each count grows
  by the number of entries of its category that moved away, and the counts together by
  the number of all entries that moved away; and the output grows by the failure reports
  of the visible non-directories that stayed, one each, in the order of the list.
\<close>

definition run_post ::
  "string \<Rightarrow> string list \<Rightarrow> run_state \<Rightarrow> run_state \<Rightarrow> bool" where
  "run_post base es st st' =
     (case (st, st') of ((s, out, fs), (s', out', fs')) \<Rightarrow>
        distinct (map fst fs') \<and>
        (\<forall>n. valid_name n \<and> n \<notin> set es \<longrightarrow> stayed fs fs' (join base n)) \<and>
        (\<forall>e\<in>set es. stayed fs fs' (join base e) \<or>
           (moved fs fs' (join base e) \<and> \<not> isdir fs (join base e) \<and>
            \<not> is_hidden_or_system e)) \<and>
        (\<forall>p. isdir fs' p = isdir fs p) \<and>
        map fst s' = map fst s \<and>
        (\<forall>c. map_of s' c =
           map_option (\<lambda>n. n + length (filter (\<lambda>e. get_category e = c \<and>
              moved fs fs' (join base e)) es)) (map_of s c)) \<and>
        sum_list (map snd s') =
          sum_list (map snd s) + length (filter (\<lambda>e. moved fs fs' (join base e)) es) \<and>
        (\<exists>ws. out' = out @ ws \<and> (\<forall>w\<in>set ws. is_failure_report w) \<and>
           map reported_entry ws = filter (\<lambda>e. \<not> isdir fs (join base e) \<and>
              \<not> is_hidden_or_system e \<and> stayed fs fs' (join base e)) es))"

text \<open>
  The entries of the base directory that are not directories, as the loop sees them.
\<close>

definition non_directory_entries :: "filesystem \<Rightarrow> string \<Rightarrow> string list" where
  "non_directory_entries fs base_path =
     filter (\<lambda>entry. \<not> isdir fs (join base_path entry)) (listdir fs base_path)"

section \<open>Scenarios\<close>

text \<open>
  The directory of the specification's second scenario, at \<open>/d\<close>, on a host that
  refuses nothing; a host that denies the move of \<open>notes.txt\<close>; the same directory
  with its category folders; and the directory of the third scenario, where
  \<open>Images/photo.jpg\<close> is already there.
\<close>

definition scenario_host :: host where
  "scenario_host =
     \<lparr>cwd = ''/home/user'', access_rw = (\<lambda>p. True),
      move_refused = (\<lambda>src dst. None), mkdir_refused = (\<lambda>p. None)\<rparr>"

definition refusing_host :: host where
  "refusing_host =
     scenario_host\<lparr>move_refused :=
       (\<lambda>src dst. if src = ''/d/notes.txt'' then Some PermissionError else None)\<rparr>"

definition scenario_fs :: filesystem where
  "scenario_fs =
     [(''/d'', Dir), (''/d/photo.JPG'', File), (''/d/notes.txt'', File),
      (''/d/archive.zip'', File), (''/d/.DS_Store'', File)]"

definition provisioned_fs :: filesystem where
  "provisioned_fs =
     scenario_fs @
     [(''/d/Images'', Dir), (''/d/Videos'', Dir), (''/d/PDFs'', Dir),
      (''/d/Documents'', Dir), (''/d/Code'', Dir), (''/d/Others'', Dir)]"

text \<open>
  What the second scenario's directory becomes when every move succeeds, and when the
  move of \<open>notes.txt\<close> is denied.
\<close>

definition organized_fs :: filesystem where
  "organized_fs =
     [(''/d'', Dir), (''/d/Images/photo.JPG'', File), (''/d/Documents/notes.txt'', File),
      (''/d/Others/archive.zip'', File), (''/d/.DS_Store'', File),
      (''/d/Images'', Dir), (''/d/Videos'', Dir), (''/d/PDFs'', Dir),
      (''/d/Documents'', Dir), (''/d/Code'', Dir), (''/d/Others'', Dir)]"

definition partly_organized_fs :: filesystem where
  "partly_organized_fs =
     [(''/d'', Dir), (''/d/Images/photo.JPG'', File), (''/d/notes.txt'', File),
      (''/d/Others/archive.zip'', File), (''/d/.DS_Store'', File),
      (''/d/Images'', Dir), (''/d/Videos'', Dir), (''/d/PDFs'', Dir),
      (''/d/Documents'', Dir), (''/d/Code'', Dir), (''/d/Others'', Dir)]"

text \<open>A directory that is reached as \<open>/d\<close> and, with a doubled leading separator, as \<open>//d\<close>.\<close>

definition aliased_fs :: filesystem where
  "aliased_fs = [(''/d'', Dir), (''//d'', Dir)]"

definition collision_fs :: filesystem where
  "collision_fs =
     [(''/d'', Dir), (''/d/Images'', Dir), (''/d/Images/photo.jpg'', File),
      (''/d/photo.jpg'', File)]"

section \<open>Properties of strings and of splitext\<close>

lemma rfind_ge: "- 1 \<le> rfind p c"
  by (induction p) (auto simp: Let_def)

lemma rfind_notin: "c \<notin> set p \<Longrightarrow> rfind p c = - 1"
  by (induction p) (auto simp: Let_def)

lemma rfind_in: "c \<in> set p \<Longrightarrow> 0 \<le> rfind p c"
  by (induction p) (auto simp: Let_def)

text \<open>The index of the last occurrence, read off the reversed string.\<close>

lemma rfind_rev: "rfind p c = int (length (dropWhile (\<lambda>x. x \<noteq> c) (rev p))) - 1"
proof (induction p)
  case Nil
  then show ?case by simp
next
  case (Cons x xs)
  show ?case
  proof (cases "c \<in> set xs")
    case True
    then have "dropWhile (\<lambda>x. x \<noteq> c) (rev xs @ [x]) = dropWhile (\<lambda>x. x \<noteq> c) (rev xs) @ [x]"
      by (intro dropWhile_append1[of c]) auto
    moreover from True have "dropWhile (\<lambda>x. x \<noteq> c) (rev xs) \<noteq> []"
      by (auto simp: dropWhile_eq_Nil_conv)
    ultimately show ?thesis using Cons by (auto simp: Let_def)
  next
    case False
    then have "dropWhile (\<lambda>x. x \<noteq> c) (rev xs @ [x]) = dropWhile (\<lambda>x. x \<noteq> c) [x]"
      by (intro dropWhile_append2) auto
    moreover from False have "dropWhile (\<lambda>x. x \<noteq> c) (rev xs) = []"
      by (auto simp: dropWhile_eq_Nil_conv)
    ultimately show ?thesis using Cons by (auto simp: Let_def)
  qed
qed

lemma rfind_append_in: "c \<notin> set b \<Longrightarrow> rfind (a @ c # b) c = int (length a)"
proof -
  assume "c \<notin> set b"
  then have "dropWhile (\<lambda>x. x \<noteq> c) (rev b @ c # rev a) = dropWhile (\<lambda>x. x \<noteq> c) (c # rev a)"
    by (intro dropWhile_append2) auto
  then show ?thesis by (simp add: rfind_rev)
qed

lemma rfind_append_notin: "c \<notin> set b \<Longrightarrow> rfind (a @ b) c = rfind a c"
proof -
  assume "c \<notin> set b"
  then have "dropWhile (\<lambda>x. x \<noteq> c) (rev b @ rev a) = dropWhile (\<lambda>x. x \<noteq> c) (rev a)"
    by (intro dropWhile_append2) auto
  then show ?thesis by (simp add: rfind_rev)
qed

lemma rfind_append_later:
  "c \<in> set b \<Longrightarrow> rfind (a @ b) c = int (length a) + rfind b c"
proof -
  assume "c \<in> set b"
  then have "dropWhile (\<lambda>x. x \<noteq> c) (rev b @ rev a) = dropWhile (\<lambda>x. x \<noteq> c) (rev b) @ rev a"
    by (intro dropWhile_append1[of c]) auto
  moreover from \<open>c \<in> set b\<close> have "dropWhile (\<lambda>x. x \<noteq> c) (rev b) \<noteq> []"
    by (auto simp: dropWhile_eq_Nil_conv)
  ultimately show ?thesis by (simp add: rfind_rev)
qed

text \<open>
  The loop of \<open>splitext\<close> over the segment \<open>ys\<close> of the string: it returns at the first
  character of \<open>ys\<close> that is not a dot, and falls through when there is none.
\<close>

lemma splitext_loop_segment:
  "splitext_loop (xs @ ys @ zs) (int (length xs)) (int (length xs + length ys)) =
     (if \<exists>c\<in>set ys. c \<noteq> CHR ''.'' then Some (xs @ ys, zs) else None)"
proof (induction ys arbitrary: xs)
  case Nil
  then show ?case by (simp add: splitext_loop.simps)
next
  case (Cons y ys)
  have IH: "splitext_loop (xs @ (y # ys) @ zs) (int (length xs) + 1) (int (length xs + length (y # ys))) =
     (if \<exists>c\<in>set ys. c \<noteq> CHR ''.'' then Some (xs @ y # ys, zs) else None)"
    using Cons.IH[of "xs @ [y]"] by (simp add: add.commute add.left_commute)
  show ?case
    apply (subst splitext_loop.simps)
    apply (simp only: IH)
    apply (simp add: nat_add_distrib)
    done
qed

lemma last_dot_split:
  assumes "CHR ''.'' \<in> set p"
  obtains a b where "p = a @ CHR ''.'' # b" "CHR ''.'' \<notin> set b"
  using split_list_last[OF assms] by blast

lemma last_component_split:
  obtains a1 where "a = a1 @ last_component a" "rfind a (CHR ''/'') + 1 = int (length a1)"
proof -
  let ?P = "\<lambda>c. c \<noteq> CHR ''/''"
  have "rev (rev a) = rev (takeWhile ?P (rev a) @ dropWhile ?P (rev a))"
    by (simp only: takeWhile_dropWhile_id)
  then have "a = rev (dropWhile ?P (rev a)) @ last_component a"
    by (simp only: rev_append rev_rev_ident last_component_def)
  moreover have "rfind a (CHR ''/'') + 1 = int (length (rev (dropWhile ?P (rev a))))"
    by (simp add: rfind_rev)
  ultimately show ?thesis by (rule that)
qed

lemma splitext_nodot: "CHR ''.'' \<notin> set p \<Longrightarrow> splitext p = (p, [])"
  using rfind_ge[of p "CHR ''/''"] by (simp add: splitext_def rfind_notin Let_def)

text \<open>What \<open>splitext\<close> returns on a name cut at its last dot.\<close>

lemma splitext_split:
  assumes "CHR ''.'' \<notin> set b"
  shows "splitext (a @ CHR ''.'' # b) =
     (if CHR ''/'' \<notin> set b \<and> (\<exists>c\<in>set (last_component a). c \<noteq> CHR ''.'')
      then (a, CHR ''.'' # b) else (a @ CHR ''.'' # b, []))"
proof (cases "CHR ''/'' \<in> set b")
  case True
  then have "CHR ''/'' \<in> set (CHR ''.'' # b)" by simp
  then have "rfind (a @ CHR ''.'' # b) (CHR ''/'') = int (length a) + rfind (CHR ''.'' # b) (CHR ''/'')"
    by (rule rfind_append_later)
  moreover from True have "0 \<le> rfind b (CHR ''/'')" by (rule rfind_in)
  ultimately have "rfind (a @ CHR ''.'' # b) (CHR ''/'') > int (length a)"
    by (simp add: Let_def)
  with assms True show ?thesis
    by (simp add: splitext_def rfind_append_in Let_def)
next
  case False
  from False have sep: "rfind (a @ CHR ''.'' # b) (CHR ''/'') = rfind a (CHR ''/'')"
    by (intro rfind_append_notin) simp
  have dot: "rfind (a @ CHR ''.'' # b) (CHR ''.'') = int (length a)"
    using assms by (rule rfind_append_in)
  obtain a1 where a: "a = a1 @ last_component a"
    and a1: "rfind a (CHR ''/'') + 1 = int (length a1)"
    by (rule last_component_split)
  define a2 where "a2 = last_component a"
  have a': "a = a1 @ a2" using a by (simp add: a2_def)
  have "splitext_loop (a1 @ a2 @ CHR ''.'' # b) (int (length a1)) (int (length a1 + length a2)) =
     (if \<exists>c\<in>set a2. c \<noteq> CHR ''.'' then Some (a1 @ a2, CHR ''.'' # b) else None)"
    by (rule splitext_loop_segment)
  then have "splitext_loop (a @ CHR ''.'' # b) (int (length a1)) (int (length a)) =
     (if \<exists>c\<in>set a2. c \<noteq> CHR ''.'' then Some (a, CHR ''.'' # b) else None)"
    by (simp add: a')
  then have loop: "splitext_loop (a @ CHR ''.'' # b) (rfind a (CHR ''/'') + 1) (int (length a)) =
     (if \<exists>c\<in>set (last_component a). c \<noteq> CHR ''.'' then Some (a, CHR ''.'' # b) else None)"
    by (simp only: a1 a2_def)
  have "rfind a (CHR ''/'') < int (length a)"
    using a1 a' by simp
  with False show ?thesis
    by (simp add: splitext_def sep dot loop Let_def)
qed

lemma spec_extension_split:
  "CHR ''.'' \<notin> set b \<Longrightarrow> spec_extension (a @ CHR ''.'' # b) = CHR ''.'' # b"
  by (simp add: spec_extension_def rfind_append_in)

lemma spec_extension_nodot: "CHR ''.'' \<notin> set p \<Longrightarrow> spec_extension p = []"
  by (simp add: spec_extension_def)

lemma extension_counts_split:
  "CHR ''.'' \<notin> set b \<Longrightarrow>
   extension_counts (a @ CHR ''.'' # b) =
     (CHR ''/'' \<notin> set b \<and> (\<exists>c\<in>set (last_component a). c \<noteq> CHR ''.''))"
  by (simp add: extension_counts_def spec_extension_split Let_def)

lemma extension_counts_nodot: "CHR ''.'' \<notin> set p \<Longrightarrow> \<not> extension_counts p"
  by (simp add: extension_counts_def spec_extension_nodot)

lemma splitext_snd:
  "snd (splitext filename) = (if extension_counts filename then spec_extension filename else [])"
proof (cases "CHR ''.'' \<in> set filename")
  case True
  then obtain a b where "filename = a @ CHR ''.'' # b" "CHR ''.'' \<notin> set b"
    by (rule last_dot_split)
  then show ?thesis
    by (simp add: splitext_split extension_counts_split spec_extension_split)
next
  case False
  then show ?thesis
    by (simp add: splitext_nodot extension_counts_nodot)
qed

text \<open>The stem that \<open>splitext\<close> returns is the name itself or an initial part of it.\<close>

lemma splitext_fst_prefix: "\<exists>rest. filename = fst (splitext filename) @ rest"
proof (cases "CHR ''.'' \<in> set filename")
  case True
  then obtain a b where "filename = a @ CHR ''.'' # b" "CHR ''.'' \<notin> set b"
    by (rule last_dot_split)
  then show ?thesis
    by (auto simp: splitext_split)
next
  case False
  then show ?thesis
    by (simp add: splitext_nodot)
qed

subsection \<open>Lowering\<close>

lemma of_char_lower_char:
  "(of_char (lower_char c) :: nat) =
     (let n = of_char c
      in if (65 \<le> n \<and> n \<le> 90) \<or> (192 \<le> n \<and> n \<le> 222 \<and> n \<noteq> 215) then n + 32 else n)"
  by (auto simp: lower_char_def Let_def)

lemma lower_char_idem: "lower_char (lower_char c) = lower_char c"
proof -
  have "(of_char (lower_char (lower_char c)) :: nat) = of_char (lower_char c)"
    by (subst of_char_lower_char) (auto simp: of_char_lower_char Let_def)
  then show ?thesis by (simp only: of_char_eq_iff)
qed

lemma lower_char_dot: "lower_char c = CHR ''.'' \<longleftrightarrow> c = CHR ''.''"
proof -
  have "(of_char (lower_char c) :: nat) = of_char (CHR ''.'') \<longleftrightarrow>
        (of_char c :: nat) = of_char (CHR ''.'')"
    by (auto simp: of_char_lower_char Let_def)
  then show ?thesis by (simp only: of_char_eq_iff)
qed

lemma lower_char_slash: "lower_char c = CHR ''/'' \<longleftrightarrow> c = CHR ''/''"
proof -
  have "(of_char (lower_char c) :: nat) = of_char (CHR ''/'') \<longleftrightarrow>
        (of_char c :: nat) = of_char (CHR ''/'')"
    by (auto simp: of_char_lower_char Let_def)
  then show ?thesis by (simp only: of_char_eq_iff)
qed

lemma lower_idem: "lower (lower s) = lower s"
  by (simp add: lower_def lower_char_idem)

lemma dot_in_lower: "CHR ''.'' \<in> set (lower s) \<longleftrightarrow> CHR ''.'' \<in> set s"
proof -
  have "CHR ''.'' \<in> set (lower s) \<longleftrightarrow> (\<exists>c\<in>set s. lower_char c = CHR ''.'')"
    by (force simp: lower_def)
  then show ?thesis by (simp add: lower_char_dot)
qed

lemma slash_in_lower: "CHR ''/'' \<in> set (lower s) \<longleftrightarrow> CHR ''/'' \<in> set s"
proof -
  have "CHR ''/'' \<in> set (lower s) \<longleftrightarrow> (\<exists>c\<in>set s. lower_char c = CHR ''/'')"
    by (force simp: lower_def)
  then show ?thesis by (simp add: lower_char_slash)
qed

lemma nondot_in_lower:
  "(\<exists>c\<in>set (lower s). c \<noteq> CHR ''.'') \<longleftrightarrow> (\<exists>c\<in>set s. c \<noteq> CHR ''.'')"
  by (simp add: lower_def lower_char_dot)

lemma last_component_lower: "last_component (lower s) = lower (last_component s)"
proof -
  have "(\<lambda>c. c \<noteq> CHR ''/'') \<circ> lower_char = (\<lambda>c. c \<noteq> CHR ''/'')"
    by (auto simp: lower_char_slash)
  then show ?thesis
    by (simp add: last_component_def lower_def rev_map takeWhile_map)
qed

lemma splitext_lower: "snd (splitext (lower p)) = lower (snd (splitext p))"
proof (cases "CHR ''.'' \<in> set p")
  case True
  then obtain a b where p: "p = a @ CHR ''.'' # b" and b: "CHR ''.'' \<notin> set b"
    by (rule last_dot_split)
  have ld: "lower_char (CHR ''.'') = CHR ''.''"
    by (simp add: lower_char_dot)
  have lp: "lower p = lower a @ CHR ''.'' # lower b"
    by (simp add: p lower_def ld)
  from b have lb: "CHR ''.'' \<notin> set (lower b)"
    by (simp add: dot_in_lower)
  have 1: "snd (splitext (lower p)) =
     (if CHR ''/'' \<notin> set b \<and> (\<exists>c\<in>set (last_component a). c \<noteq> CHR ''.'')
      then CHR ''.'' # lower b else [])"
    by (simp add: lp splitext_split[OF lb] slash_in_lower last_component_lower nondot_in_lower)
  have 2: "snd (splitext p) =
     (if CHR ''/'' \<notin> set b \<and> (\<exists>c\<in>set (last_component a). c \<noteq> CHR ''.'')
      then CHR ''.'' # b else [])"
    by (simp add: p splitext_split[OF b])
  show ?thesis
    unfolding 1 2 by (simp add: lower_def ld)
next
  case False
  then have "CHR ''.'' \<notin> set (lower p)" by (simp add: dot_in_lower)
  with False show ?thesis
    by (simp add: splitext_nodot lower_def)
qed

section \<open>Classification\<close>

lemma EXTENSION_MAP_values: "snd ` set EXTENSION_MAP \<subseteq> set CATEGORIES"
  by (simp add: EXTENSION_MAP_def CATEGORIES_def)

lemma lookup_empty: "map_of EXTENSION_MAP [] = None"
  by (simp add: EXTENSION_MAP_def)

lemma get_category_cases: "get_category filename \<in> set CATEGORIES"
proof (cases "map_of EXTENSION_MAP (lower (snd (splitext filename)))")
  case None
  then show ?thesis
    by (simp add: get_category_def CATEGORIES_def)
next
  case (Some category)
  then have "(lower (snd (splitext filename)), category) \<in> set EXTENSION_MAP"
    by (rule map_of_SomeD)
  then have "category \<in> snd ` set EXTENSION_MAP"
    by force
  with EXTENSION_MAP_values have "category \<in> set CATEGORIES"
    by blast
  with Some show ?thesis
    by (simp add: get_category_def)
qed

text \<open>
  C3: for every file name, \<open>get_category\<close> returns a label, and that label is one of
  the six of \<open>CATEGORIES\<close>. The function has no failing branch: the model is a total
  function of the file name, as \<open>splitext\<close>, \<open>lower\<close> and \<open>dict.get\<close> with a default
  raise nothing on a string.
\<close>

theorem get_category_in_CATEGORIES:
  "get_category filename \<in> set CATEGORIES \<and>
   set CATEGORIES = {''Images'', ''Videos'', ''PDFs'', ''Documents'', ''Code'', ''Others''}"
proof
  show "get_category filename \<in> set CATEGORIES"
    by (rule get_category_cases)
  show "set CATEGORIES = {''Images'', ''Videos'', ''PDFs'', ''Documents'', ''Code'', ''Others''}"
    by (simp add: CATEGORIES_def)
qed

text \<open>
  C6, as the specification words it, fails: for the name \<open>.py\<close> the substring from the
  last dot to the end is \<open>.py\<close>, a key of the table with the label \<open>Code\<close>, and
  \<open>get_category\<close> returns \<open>Others\<close>.
\<close>

theorem spec_classify_counterexample:
  "spec_classify ''.py'' = ''Code'' \<and> get_category ''.py'' = ''Others''"
  by code_simp

text \<open>
  C6, amended: \<open>get_category\<close> takes as the extension the substring from the last dot
  to the end of the name only when no separator follows that dot and, in the last
  component of the name, some character other than a dot comes before it; otherwise
  the extension is absent. The extension is compared without regard to case (lowering
  the whole name changes nothing), and the label is \<open>Others\<close> when the extension is
  absent or not in the table.
\<close>

theorem get_category_extension:
  "snd (splitext filename) = (if extension_counts filename then spec_extension filename else []) \<and>
   get_category filename = (if extension_counts filename then spec_classify filename else ''Others'') \<and>
   get_category (lower filename) = get_category filename"
proof (intro conjI)
  show "snd (splitext filename) =
      (if extension_counts filename then spec_extension filename else [])"
    by (rule splitext_snd)
  show "get_category filename =
      (if extension_counts filename then spec_classify filename else ''Others'')"
    by (simp add: splitext_snd get_category_def spec_classify_def lookup_empty)
      (simp add: lower_def lookup_empty)
  show "get_category (lower filename) = get_category filename"
    by (simp add: get_category_def splitext_lower lower_idem)
qed

text \<open>
  C10: a file name that begins with a dot and has no other dot is classified as
  \<open>Others\<close>, whatever follows the dot: \<open>splitext\<close> skips leading dots, so the name has
  no extension.
\<close>

theorem get_category_leading_dot:
  assumes "filename = CHR ''.'' # rest" and "CHR ''.'' \<notin> set rest"
  shows "get_category filename = ''Others''"
proof -
  have "splitext ([] @ CHR ''.'' # rest) =
     (if CHR ''/'' \<notin> set rest \<and> (\<exists>c\<in>set (last_component []). c \<noteq> CHR ''.'')
      then ([], CHR ''.'' # rest) else ([] @ CHR ''.'' # rest, []))"
    using assms(2) by (rule splitext_split)
  then have "snd (splitext filename) = []"
    using assms(1) by (simp add: last_component_def)
  then show ?thesis
    by (simp add: get_category_def lower_def lookup_empty)
qed

theorem get_category_leading_dot_witness:
  "get_category ''.py'' = ''Others'' \<and> map_of EXTENSION_MAP ''.py'' = Some ''Code''"
proof -
  have "get_category ''.py'' = ''Others''"
    by (rule get_category_leading_dot[of _ "''py''"]) simp_all
  moreover have "map_of EXTENSION_MAP ''.py'' = Some ''Code''"
    by (simp add: EXTENSION_MAP_def)
  ultimately show ?thesis by simp
qed

section \<open>resolve_duplicate\<close>

lemma str_nonempty: "str n \<noteq> []"
  by (subst str.simps) simp

lemma of_char_digit_char: "d < 10 \<Longrightarrow> (of_char (digit_char d) :: nat) = 48 + d"
proof -
  assume "d < 10"
  have "(48 + d) mod 256 = 48 + d"
    by (rule mod_less) (use \<open>d < 10\<close> in linarith)
  then show ?thesis by (simp only: digit_char_def of_char_of)
qed

lemma digit_char_inj: "a < 10 \<Longrightarrow> b < 10 \<Longrightarrow> digit_char a = digit_char b \<Longrightarrow> a = b"
proof -
  assume a: "a < 10" and b: "b < 10" and eq: "digit_char a = digit_char b"
  from eq have "(of_char (digit_char a) :: nat) = of_char (digit_char b)"
    by (rule arg_cong)
  then have "48 + a = 48 + b"
    unfolding of_char_digit_char[OF a] of_char_digit_char[OF b] .
  then show "a = b" by linarith
qed

lemma str_inj: "str n = str m \<Longrightarrow> n = m"
proof (induction n arbitrary: m rule: str.induct)
  case (1 n)
  show ?case
  proof (cases "n < 10")
    case True
    note n = this
    show ?thesis
    proof (cases "m < 10")
      case True
      with n "1.prems" show ?thesis
        by (simp add: str.simps[of n] str.simps[of m] digit_char_inj)
    next
      case False
      with n "1.prems" have "[digit_char n] = str (m div 10) @ [digit_char (m mod 10)]"
        by (simp add: str.simps[of n] str.simps[of m])
      then have "str (m div 10) = []" by simp
      then show ?thesis by (simp add: str_nonempty)
    qed
  next
    case False
    note n = this
    show ?thesis
    proof (cases "m < 10")
      case True
      with n "1.prems" have "str (n div 10) @ [digit_char (n mod 10)] = [digit_char m]"
        by (simp add: str.simps[of n] str.simps[of m])
      then have "str (n div 10) = []" by simp
      then show ?thesis by (simp add: str_nonempty)
    next
      case False
      with n "1.prems" have "str (n div 10) @ [digit_char (n mod 10)] = str (m div 10) @ [digit_char (m mod 10)]"
        by (simp add: str.simps[of n] str.simps[of m])
      then have eq: "str (n div 10) = str (m div 10)" and d: "digit_char (n mod 10) = digit_char (m mod 10)"
        by simp_all
      from "1.IH"[OF n eq] have "n div 10 = m div 10" .
      moreover from d have "n mod 10 = m mod 10"
        by (intro digit_char_inj) simp_all
      ultimately show ?thesis
        by (metis div_mult_mod_eq)
    qed
  qed
qed

lemma startswith_sep: "startswith s ''/'' \<longleftrightarrow> (\<exists>t. s = CHR ''/'' # t)"
  by (cases s) (auto simp: startswith_def)

lemma startswith_candidate_name:
  "startswith (name @ ''_'' @ x) ''/'' = startswith name ''/''"
  by (cases name) (simp_all add: startswith_def)

lemma join_inj:
  "startswith b ''/'' = startswith b' ''/'' \<Longrightarrow> join a b = join a b' \<Longrightarrow> b = b'"
  by (auto simp: join_def split: if_splits)

lemma candidate_inj: "candidate folder filename j = candidate folder filename k \<Longrightarrow> j = k"
proof -
  assume eq: "candidate folder filename j = candidate folder filename k"
  obtain name ext where s: "splitext filename = (name, ext)" by (cases "splitext filename")
  have "startswith (name @ ''_'' @ str j @ ext) ''/'' = startswith (name @ ''_'' @ str k @ ext) ''/''"
    by (simp only: startswith_candidate_name)
  moreover from eq have "join folder (name @ ''_'' @ str j @ ext) = join folder (name @ ''_'' @ str k @ ext)"
    by (simp add: candidate_def s)
  ultimately have "name @ ''_'' @ str j @ ext = name @ ''_'' @ str k @ ext"
    by (rule join_inj)
  then have "str j = str k" by simp
  then show "j = k" by (rule str_inj)
qed

lemma resolve_loop_free:
  "\<not> pexists dest \<Longrightarrow> resolve_loop pexists folder name ext dest counter = Some dest"
  by (subst resolve_loop.simps) simp

lemma resolve_loop_finds:
  assumes "pexists dest" and "counter \<le> k"
    and "\<not> pexists (join folder (name @ ''_'' @ str k @ ext))"
    and "\<And>j. counter \<le> j \<Longrightarrow> j < k \<Longrightarrow> pexists (join folder (name @ ''_'' @ str j @ ext))"
  shows "resolve_loop pexists folder name ext dest counter =
         Some (join folder (name @ ''_'' @ str k @ ext))"
  using assms
proof (induction "k - counter" arbitrary: counter dest)
  case 0
  then have "counter = k" by simp
  with 0 show ?case
    by (subst resolve_loop.simps) (simp add: resolve_loop_free Let_def)
next
  case (Suc d)
  then have lt: "counter < k" by simp
  have ex: "pexists (join folder (name @ ''_'' @ str counter @ ext))"
    using Suc.prems(4)[of counter] lt by simp
  have "resolve_loop pexists folder name ext (join folder (name @ ''_'' @ str counter @ ext)) (counter + 1) =
        Some (join folder (name @ ''_'' @ str k @ ext))"
  proof (rule Suc.hyps(1))
    show "d = k - (counter + 1)" using Suc.hyps(2) by simp
    show "pexists (join folder (name @ ''_'' @ str counter @ ext))" by (rule ex)
    show "counter + 1 \<le> k" using lt by simp
    show "\<not> pexists (join folder (name @ ''_'' @ str k @ ext))" by (rule Suc.prems(3))
    show "\<And>j. counter + 1 \<le> j \<Longrightarrow> j < k \<Longrightarrow> pexists (join folder (name @ ''_'' @ str j @ ext))"
      using Suc.prems(4) by simp
  qed
  with Suc.prems(1) show ?case
    by (subst resolve_loop.simps) (simp add: Let_def)
qed

lemma resolve_duplicate_direct:
  "\<not> pexists (join folder filename) \<Longrightarrow>
   resolve_duplicate pexists folder filename = Some (join folder filename)"
  by (simp add: resolve_duplicate_def)

lemma resolve_duplicate_probe:
  assumes "pexists (join folder filename)" and "1 \<le> k"
    and "\<not> pexists (candidate folder filename k)"
    and "\<And>j. 1 \<le> j \<Longrightarrow> j < k \<Longrightarrow> pexists (candidate folder filename j)"
  shows "resolve_duplicate pexists folder filename = Some (candidate folder filename k)"
proof -
  obtain name ext where s: "splitext filename = (name, ext)" by (cases "splitext filename")
  have "resolve_loop pexists folder name ext (join folder filename) 1 =
        Some (join folder (name @ ''_'' @ str k @ ext))"
  proof (rule resolve_loop_finds)
    show "pexists (join folder filename)" by (rule assms(1))
    show "1 \<le> k" by (rule assms(2))
    show "\<not> pexists (join folder (name @ ''_'' @ str k @ ext))"
      using assms(3) by (simp add: candidate_def s)
    show "\<And>j. 1 \<le> j \<Longrightarrow> j < k \<Longrightarrow> pexists (join folder (name @ ''_'' @ str j @ ext))"
      using assms(4) by (simp add: candidate_def s)
  qed
  with assms(1) show ?thesis
    by (simp add: resolve_duplicate_def candidate_def s)
qed

text \<open>Among infinitely many distinct candidates one is free when finitely many paths exist.\<close>

lemma free_candidate:
  assumes "finite {p. pexists p}"
  shows "\<exists>k\<ge>1. \<not> pexists (candidate folder filename k)"
proof (rule ccontr)
  assume "\<not> (\<exists>k\<ge>1. \<not> pexists (candidate folder filename k))"
  then have all: "\<And>k. 1 \<le> k \<Longrightarrow> pexists (candidate folder filename k)" by blast
  have "inj_on (candidate folder filename) {1..}"
    by (rule inj_onI) (rule candidate_inj)
  moreover have "candidate folder filename ` {1..} \<subseteq> {p. pexists p}"
    using all by auto
  ultimately have "finite {1::nat ..}"
    using assms by (meson finite_subset inj_on_finite subset_refl finite_imageD)
  then show False by (simp add: infinite_Ici)
qed

lemma resolve_duplicate_total:
  assumes "finite {p. pexists p}"
  shows "\<exists>dest. resolve_duplicate pexists folder filename = Some dest \<and> \<not> pexists dest \<and>
      (dest = join folder filename \<or> (\<exists>k\<ge>1. dest = candidate folder filename k))"
proof (cases "pexists (join folder filename)")
  case False
  then show ?thesis by (simp add: resolve_duplicate_direct)
next
  case True
  define P where "P k \<longleftrightarrow> 1 \<le> k \<and> \<not> pexists (candidate folder filename k)" for k
  from free_candidate[OF assms] have "\<exists>k. P k" by (auto simp: P_def)
  then have least: "P (LEAST k. P k)" by (rule LeastI_ex)
  define k where "k = (LEAST k. P k)"
  have "resolve_duplicate pexists folder filename = Some (candidate folder filename k)"
  proof (rule resolve_duplicate_probe)
    show "pexists (join folder filename)" by (rule True)
    show "1 \<le> k" using least by (simp add: P_def k_def)
    show "\<not> pexists (candidate folder filename k)" using least by (simp add: P_def k_def)
    fix j assume "1 \<le> j" "j < k"
    then have "\<not> P j" unfolding k_def by (meson not_less_Least)
    with \<open>1 \<le> j\<close> show "pexists (candidate folder filename j)" by (simp add: P_def)
  qed
  moreover have "\<not> pexists (candidate folder filename k)" "1 \<le> k"
    using least by (simp_all add: P_def k_def)
  ultimately show ?thesis by blast
qed


text \<open>
  C4: if nothing exists at \<open>join destination_folder filename\<close>, \<open>resolve_duplicate\<close>
  returns that path. Otherwise, if the candidates with the counters 1 to \<open>k - 1\<close> all
  exist and the candidate with the counter \<open>k\<close> does not, it returns the candidate with
  the counter \<open>k\<close>: the first one, in increasing order from 1, that does not exist.
\<close>

theorem resolve_duplicate_first_free:
  "(\<not> pexists (join destination_folder filename) \<longrightarrow>
      resolve_duplicate pexists destination_folder filename =
        Some (join destination_folder filename)) \<and>
   (pexists (join destination_folder filename) \<and> 1 \<le> k \<and>
    \<not> pexists (candidate destination_folder filename k) \<and>
    (\<forall>j. 1 \<le> j \<and> j < k \<longrightarrow> pexists (candidate destination_folder filename j)) \<longrightarrow>
      resolve_duplicate pexists destination_folder filename =
        Some (candidate destination_folder filename k))"
  using resolve_duplicate_direct resolve_duplicate_probe by blast

lemma candidate_photo:
  "candidate ''/d/Images'' ''photo.jpg'' 1 = ''/d/Images/photo_1.jpg''"
  "candidate ''/d/Images'' ''photo.jpg'' 2 = ''/d/Images/photo_2.jpg''"
  "join ''/d/Images'' ''photo.jpg'' = ''/d/Images/photo.jpg''"
  "join ''/d/Images'' ''notes.txt'' = ''/d/Images/notes.txt''"
  by code_simp+

theorem resolve_duplicate_first_free_witness:
  "resolve_duplicate (\<lambda>p. p \<in> set [''/d/Images/photo.jpg'', ''/d/Images/photo_1.jpg''])
     ''/d/Images'' ''photo.jpg'' = Some ''/d/Images/photo_2.jpg'' \<and>
   resolve_duplicate (\<lambda>p. p \<in> set [''/d/Images/photo.jpg'', ''/d/Images/photo_1.jpg''])
     ''/d/Images'' ''notes.txt'' = Some ''/d/Images/notes.txt'' \<and>
   resolve_duplicate (path_exists collision_fs) ''/d/Images'' ''photo.jpg'' =
     Some ''/d/Images/photo_1.jpg''"
proof -
  let ?ex = "\<lambda>p. p \<in> set [''/d/Images/photo.jpg'', ''/d/Images/photo_1.jpg'']"
  have j: "\<forall>j. 1 \<le> j \<and> j < (2::nat) \<longrightarrow> ?ex (candidate ''/d/Images'' ''photo.jpg'' j)"
  proof (intro allI impI)
    fix j :: nat assume "1 \<le> j \<and> j < 2"
    then have "j = 1" by linarith
    then have "candidate ''/d/Images'' ''photo.jpg'' j = ''/d/Images/photo_1.jpg''"
      by (simp only: candidate_photo)
    then show "?ex (candidate ''/d/Images'' ''photo.jpg'' j)"
      by simp
  qed
  have "resolve_duplicate ?ex ''/d/Images'' ''photo.jpg'' =
        Some (candidate ''/d/Images'' ''photo.jpg'' 2)"
    using resolve_duplicate_first_free[of ?ex "''/d/Images''" "''photo.jpg''" 2] j
    by (simp add: candidate_photo)
  moreover have "resolve_duplicate ?ex ''/d/Images'' ''notes.txt'' =
        Some (join ''/d/Images'' ''notes.txt'')"
    using resolve_duplicate_first_free[of ?ex "''/d/Images''" "''notes.txt''" 1]
    by (simp add: candidate_photo)
  moreover have "resolve_duplicate (path_exists collision_fs) ''/d/Images'' ''photo.jpg'' =
        Some (candidate ''/d/Images'' ''photo.jpg'' 1)"
  proof -
    have "path_exists collision_fs (join ''/d/Images'' ''photo.jpg'')"
      and "\<not> path_exists collision_fs (candidate ''/d/Images'' ''photo.jpg'' 1)"
      by code_simp+
    then show ?thesis
      using resolve_duplicate_first_free[of "path_exists collision_fs" "''/d/Images''"
          "''photo.jpg''" 1]
      by simp
  qed
  ultimately show ?thesis by (simp add: candidate_photo candidate_photo(1)[unfolded One_nat_def])
qed



section \<open>validate_path\<close>

lemma startswith_sep_append: "startswith a ''/'' \<Longrightarrow> startswith (a @ b) ''/''"
  by (cases a) (simp_all add: startswith_def)

lemma normpath_absolute: "startswith path ''/'' \<Longrightarrow> startswith (normpath path) ''/''"
proof -
  assume a: "startswith path ''/''"
  then have ne: "path \<noteq> []" by (auto simp: startswith_def)
  define n :: nat where "n = (if startswith path ''//'' \<and> \<not> startswith path ''///'' then 2 else 1)"
  define rest where "rest = sep_join (foldl (normpath_step n) [] (split_sep path))"
  have n: "n = 1 \<or> n = 2" by (simp add: n_def)
  have "normpath path = replicate n (CHR ''/'') @ rest"
    using a ne n by (auto simp: normpath_def Let_def n_def rest_def)
  moreover have "startswith (replicate n (CHR ''/'') @ rest) ''/''"
    using n by (auto simp: startswith_def numeral_2_eq_2)
  ultimately show ?thesis by simp
qed

lemma abspath_absolute: "startswith wd ''/'' \<Longrightarrow> startswith (abspath wd path) ''/''"
proof (cases "startswith path ''/''")
  case True
  then show ?thesis by (simp add: abspath_def normpath_absolute)
next
  case False
  assume "startswith wd ''/''"
  then have "startswith (join wd path) ''/''"
    using False by (auto simp: join_def startswith_sep_append)
  with False show ?thesis by (simp add: abspath_def normpath_absolute)
qed

subsection \<open>normpath returns a fixed point of normpath\<close>

lemma split_sep_nonempty: "split_sep p \<noteq> []"
  by (induction p) (auto split: list.splits)

lemma split_sep_noslash: "c \<in> set (split_sep p) \<Longrightarrow> CHR ''/'' \<notin> set c"
proof (induction p arbitrary: c)
  case Nil
  then show ?case by simp
next
  case (Cons x xs)
  show ?case
  proof (cases "x = CHR ''/''")
    case True
    with Cons show ?thesis by auto
  next
    case False
    obtain y ys where s: "split_sep xs = y # ys"
      using split_sep_nonempty[of xs] by (cases "split_sep xs") auto
    from Cons.prems False s have "c = x # y \<or> c \<in> set ys" by auto
    with Cons.IH[of y] Cons.IH[of c] False s show ?thesis by auto
  qed
qed

lemma split_sep_plain: "CHR ''/'' \<notin> set x \<Longrightarrow> split_sep x = [x]"
  by (induction x) auto

lemma split_sep_append: "CHR ''/'' \<notin> set x \<Longrightarrow> split_sep (x @ CHR ''/'' # r) = x # split_sep r"
  by (induction x) auto

lemma split_sep_join:
  "cs \<noteq> [] \<Longrightarrow> \<forall>c\<in>set cs. CHR ''/'' \<notin> set c \<Longrightarrow> split_sep (sep_join cs) = cs"
proof (induction cs rule: sep_join.induct)
  case 1
  then show ?case by simp
next
  case (2 x)
  then show ?case by (simp add: split_sep_plain)
next
  case (3 x y ys)
  then show ?case by (simp add: split_sep_append)
qed

lemma norm_comps_Nil: "norm_comps n []"
  by (simp add: norm_comps_def)

lemma dropWhile_snoc:
  "dropWhile P (xs @ [x]) = (if \<forall>y\<in>set xs. P y then dropWhile P [x] else dropWhile P xs @ [x])"
  by (induction xs) auto

lemma dropWhile_all: "(\<forall>y\<in>set xs. P y) \<Longrightarrow> dropWhile P xs = []"
  by (induction xs) auto

lemma norm_comps_snoc:
  "norm_comps n (cs @ [c]) \<longleftrightarrow>
     norm_comps n cs \<and> c \<noteq> [] \<and> c \<noteq> ''.'' \<and> CHR ''/'' \<notin> set c \<and>
     (c = ''..'' \<longrightarrow> n = 0 \<and> (\<forall>d\<in>set cs. d = ''..''))"
  unfolding norm_comps_def dropWhile_snoc
  by (auto simp: dropWhile_all dest: set_dropWhileD)

lemma norm_comps_butlast: "norm_comps n cs \<Longrightarrow> norm_comps n (butlast cs)"
proof (cases cs rule: rev_cases)
  case Nil
  then show ?thesis by (simp add: norm_comps_Nil)
next
  case (snoc ys y)
  assume "norm_comps n cs"
  with snoc show ?thesis by (simp add: norm_comps_snoc)
qed

lemma norm_comps_last_dotdot:
  assumes "norm_comps n cs" and "cs \<noteq> []" and "last cs = ''..''"
  shows "n = 0 \<and> (\<forall>d\<in>set cs. d = ''..'')"
proof -
  from assms(2) have "cs = butlast cs @ [last cs]" by simp
  with assms(3) have cs: "cs = butlast cs @ [''..'']" by simp
  from assms(1) have "norm_comps n (butlast cs @ [''..''])"
    by (subst (asm) cs)
  then have "n = 0" and "\<forall>d\<in>set (butlast cs). d = ''..''"
    by (simp_all add: norm_comps_snoc)
  then show ?thesis by (subst cs) simp
qed

lemma normpath_step_norm:
  assumes "norm_comps n cs" and "CHR ''/'' \<notin> set c"
  shows "norm_comps n (normpath_step n cs c)"
proof (cases "c = [] \<or> c = ''.''")
  case True
  with assms(1) show ?thesis by (simp add: normpath_step_def)
next
  case False
  note plain = this
  show ?thesis
  proof (cases "c = ''..''")
    case False
    with plain have "normpath_step n cs c = cs @ [c]"
      by (simp add: normpath_step_def)
    with assms plain False show ?thesis by (simp add: norm_comps_snoc)
  next
    case True
    note dd = this
    show ?thesis
    proof (cases "cs = []")
      case True
      with dd have "normpath_step n cs c = (if n = 0 then [''..''] else [])"
        by (simp add: normpath_step_def)
      moreover have "norm_comps 0 ([] @ [''..''])"
        by (simp only: norm_comps_snoc norm_comps_Nil) simp
      ultimately show ?thesis by (simp add: norm_comps_Nil)
    next
      case False
      note ne = this
      show ?thesis
      proof (cases "last cs = ''..''")
        case True
        from norm_comps_last_dotdot[OF assms(1) ne True]
        have "n = 0" and "\<forall>d\<in>set cs. d = ''..''" by simp_all
        moreover from dd ne True have "normpath_step n cs c = cs @ [''..'']"
          by (simp add: normpath_step_def)
        ultimately show ?thesis using assms(1) by (simp add: norm_comps_snoc)
      next
        case False
        with dd ne have "normpath_step n cs c = butlast cs"
          by (simp add: normpath_step_def)
        with assms(1) show ?thesis by (simp add: norm_comps_butlast)
      qed
    qed
  qed
qed

lemma foldl_normpath_step_norm:
  "norm_comps n acc \<Longrightarrow> \<forall>c\<in>set xs. CHR ''/'' \<notin> set c \<Longrightarrow>
   norm_comps n (foldl (normpath_step n) acc xs)"
  by (induction xs arbitrary: acc) (simp_all add: normpath_step_norm)

lemma foldl_normpath_step_fixed:
  "norm_comps n cs \<Longrightarrow> foldl (normpath_step n) [] cs = cs"
proof (induction cs rule: rev_induct)
  case Nil
  then show ?case by simp
next
  case (snoc c cs)
  from snoc.prems have cs: "norm_comps n cs" and c: "c \<noteq> []" "c \<noteq> ''.''"
    and dd: "c = ''..'' \<longrightarrow> n = 0 \<and> (\<forall>d\<in>set cs. d = ''..'')"
    by (simp_all add: norm_comps_snoc)
  have "normpath_step n cs c = cs @ [c]"
  proof (cases "c = ''..''")
    case False
    with c show ?thesis by (simp add: normpath_step_def)
  next
    case True
    with dd have "n = 0" and all: "\<forall>d\<in>set cs. d = ''..''" by simp_all
    then have "cs = [] \<or> (cs \<noteq> [] \<and> last cs = ''..'')" by auto
    with True \<open>n = 0\<close> show ?thesis by (auto simp: normpath_step_def)
  qed
  with snoc.IH[OF cs] show ?case by simp
qed

lemma foldl_normpath_step_skip:
  "foldl (normpath_step n) acc (replicate k [] @ xs) = foldl (normpath_step n) acc xs"
  by (induction k) (simp_all add: normpath_step_def)


lemma sep_join_head:
  assumes "cs \<noteq> []" and "\<forall>c\<in>set cs. c \<noteq> [] \<and> CHR ''/'' \<notin> set c"
  obtains x r where "sep_join cs = x # r" "x \<noteq> CHR ''/''"
proof -
  from assms(1) obtain c cs' where cs: "cs = c # cs'" by (cases cs) auto
  with assms(2) obtain x c' where c: "c = x # c'" "x \<noteq> CHR ''/''"
    by (cases c) auto
  have "sep_join cs = x # (c' @ (case cs' of [] \<Rightarrow> [] | y # ys \<Rightarrow> ''/'' @ sep_join cs'))"
    by (cases cs') (simp_all add: cs c)
  from this c(2) show ?thesis by (rule that)
qed

lemma foldl_normpath_step_empty:
  "foldl (normpath_step n) acc (replicate k []) = acc"
  by (induction k) (simp_all add: normpath_step_def)

lemma split_sep_slash: "split_sep (CHR ''/'' # r) = [] # split_sep r"
  by simp

lemma normpath_dot: "normpath ''.'' = ''.''"
  by code_simp

text \<open>A path made of up to two slashes and normal components is what \<open>normpath\<close> makes of it.\<close>

lemma normpath_normal:
  assumes nc: "norm_comps n cs" and n: "n \<le> 2"
    and q: "q = replicate n (CHR ''/'') @ sep_join cs" and ne: "q \<noteq> []"
  shows "normpath q = q"
proof -
  from nc have comps: "\<forall>c\<in>set cs. c \<noteq> [] \<and> CHR ''/'' \<notin> set c"
    by (simp add: norm_comps_def)
  then have slashfree: "\<forall>c\<in>set cs. CHR ''/'' \<notin> set c" by simp
  txt \<open>The text after the leading slashes is empty or starts with another character.\<close>
  have tail: "sep_join cs = [] \<or> (\<exists>x r. sep_join cs = x # r \<and> x \<noteq> CHR ''/'')"
  proof (cases "cs = []")
    case True
    then show ?thesis by simp
  next
    case False
    from sep_join_head[OF False comps] show ?thesis by blast
  qed
  from n consider "n = 0" | "n = 1" | "n = 2" by linarith
  then have init: "(if startswith q ''/'' then
                 (if startswith q ''//'' \<and> \<not> startswith q ''///'' then 2 else 1)
               else 0) = n"
  proof cases
    case 1
    with q ne tail show ?thesis by (auto simp: startswith_def)
  next
    case 2
    with q tail show ?thesis by (auto simp: startswith_def)
  next
    case 3
    with q tail show ?thesis by (auto simp: startswith_def numeral_2_eq_2)
  qed
  have split: "split_sep q = replicate n [] @ split_sep (sep_join cs)"
    unfolding q by (induction n) simp_all
  have fold: "sep_join (foldl (normpath_step n) [] (split_sep q)) = sep_join cs"
  proof (cases "cs = []")
    case True
    have "foldl (normpath_step n) [] (replicate n [] @ [[]]) = []"
      by (simp only: foldl_normpath_step_skip) (simp add: normpath_step_def)
    with True show ?thesis
      by (simp only: split sep_join.simps split_sep.simps)
  next
    case False
    then have "split_sep (sep_join cs) = cs"
      using slashfree by (rule split_sep_join)
    then show ?thesis
      by (simp add: split foldl_normpath_step_empty foldl_normpath_step_fixed[OF nc])
  qed
  define n' :: nat where "n' = (if startswith q ''/'' then
                 (if startswith q ''//'' \<and> \<not> startswith q ''///'' then 2 else 1)
               else 0)"
  have n': "n' = n" unfolding n'_def by (rule init)
  have path2: "(if n \<noteq> 0 then replicate n (CHR ''/'') @ sep_join cs else sep_join cs) = q"
    by (simp add: q)
  have "normpath q =
      (let path2 = (if n' \<noteq> 0
                    then replicate n' (CHR ''/'') @
                         sep_join (foldl (normpath_step n') [] (split_sep q))
                    else sep_join (foldl (normpath_step n') [] (split_sep q)))
       in if path2 = [] then ''.'' else path2)"
    unfolding n'_def using ne by (simp add: normpath_def Let_def)
  then have "normpath q = (if q = [] then ''.'' else q)"
    unfolding n' fold path2 by (simp add: Let_def)
  with ne show ?thesis by simp
qed

text \<open>What \<open>normpath\<close> returns is of that form, or is the single dot.\<close>

lemma normpath_form:
  obtains "normpath p = ''.''"
  | n cs where "norm_comps n cs" "n \<le> 2" "normpath p = replicate n (CHR ''/'') @ sep_join cs"
      "normpath p \<noteq> []"
proof (cases "p = []")
  case True
  then have "normpath p = ''.''" by (simp add: normpath_def)
  then show ?thesis by (rule that(1))
next
  case False
  define n :: nat where "n = (if startswith p ''/'' then
                 (if startswith p ''//'' \<and> \<not> startswith p ''///'' then 2 else 1)
               else 0)"
  define cs where "cs = foldl (normpath_step n) [] (split_sep p)"
  define q where "q = replicate n (CHR ''/'') @ sep_join cs"
  have n2: "n \<le> 2" by (simp add: n_def)
  have nc: "norm_comps n cs"
    unfolding cs_def
    by (rule foldl_normpath_step_norm[OF norm_comps_Nil]) (use split_sep_noslash in blast)
  have path2: "(if n \<noteq> 0 then replicate n (CHR ''/'') @ sep_join cs else sep_join cs) = q"
    by (simp add: q_def)
  have "normpath p =
      (let path2 = (if n \<noteq> 0 then replicate n (CHR ''/'') @ sep_join cs else sep_join cs)
       in if path2 = [] then ''.'' else path2)"
    unfolding cs_def n_def using False by (simp add: normpath_def Let_def)
  then have np: "normpath p = (if q = [] then ''.'' else q)"
    unfolding path2 by (simp add: Let_def)
  show ?thesis
  proof (cases "q = []")
    case True
    with np have "normpath p = ''.''" by simp
    then show ?thesis by (rule that(1))
  next
    case False
    with np have "normpath p = replicate n (CHR ''/'') @ sep_join cs" "normpath p \<noteq> []"
      by (simp_all add: q_def)
    with nc n2 show ?thesis by (rule that(2))
  qed
qed

lemma normpath_idem: "normpath (normpath p) = normpath p"
proof (cases p rule: normpath_form)
  case 1
  then show ?thesis by (simp add: normpath_dot)
next
  case (2 n cs)
  from normpath_normal[OF 2(1) 2(2) 2(3) 2(4)] show ?thesis .
qed

lemma abspath_normal: "normpath (abspath wd path) = abspath wd path"
  by (simp add: abspath_def normpath_idem)

lemma isdir_exists: "isdir fs p \<Longrightarrow> path_exists fs p"
  by (simp add: isdir_def path_exists_def)

text \<open>
  C8, as the specification words it, fails: the path \<open>//d\<close> and the path \<open>/d\<close> reach
  one directory, \<open>validate_path\<close> accepts both, and for \<open>//d\<close> it returns \<open>//d\<close>,
  which is not the canonical form.
\<close>

theorem validate_path_canonical_counterexample:
  "validate_path scenario_host aliased_fs ''//d'' = Inr ''//d'' \<and>
   validate_path scenario_host aliased_fs ''/d'' = Inr ''/d'' \<and>
   \<not> spec_canonical ''//d''"
  by code_simp

text \<open>
  C8, amended: \<open>validate_path\<close> resolves the path with \<open>os.path.abspath\<close>. It ends the
  process with status 1 and the message that the path does not exist exactly when
  nothing exists at the resolved path, with the message that it is not a directory
  exactly when something exists there that is not a directory, and with the message
  about permissions exactly when a directory is there and \<open>os.access\<close> denies reading or
  writing. It returns exactly when a directory is there and access is granted, and what
  it returns is the resolved path: the \<open>abspath\<close> of the argument, which \<open>normpath\<close>
  leaves as it is (it is in normal form) and which is absolute when the working
  directory is. The function reads the file system and does not change it: the file
  system is not among its results.
\<close>

theorem validate_path_outcomes:
  "(validate_path h fs path = Inl (PathDoesNotExist (abspath (cwd h) path), 1)) =
     (\<not> path_exists fs (abspath (cwd h) path)) \<and>
   (validate_path h fs path = Inl (NotADirectory (abspath (cwd h) path), 1)) =
     (path_exists fs (abspath (cwd h) path) \<and> \<not> isdir fs (abspath (cwd h) path)) \<and>
   (validate_path h fs path = Inl (InsufficientPermissions (abspath (cwd h) path), 1)) =
     (isdir fs (abspath (cwd h) path) \<and> \<not> access_rw h (abspath (cwd h) path)) \<and>
   (validate_path h fs path = Inr (abspath (cwd h) path)) =
     (isdir fs (abspath (cwd h) path) \<and> access_rw h (abspath (cwd h) path)) \<and>
   (\<forall>p. validate_path h fs path = Inr p \<longrightarrow>
      p = abspath (cwd h) path \<and> normpath p = p \<and>
      (startswith (cwd h) ''/'' \<longrightarrow> startswith p ''/''))"
  using isdir_exists[of fs "abspath (cwd h) path"] abspath_absolute[of "cwd h" path]
    abspath_normal[of "cwd h" path]
  by (auto simp: validate_path_def Let_def)

theorem validate_path_outcomes_witness:
  "validate_path scenario_host scenario_fs ''../../d/'' = Inr ''/d'' \<and>
   abspath (cwd scenario_host) ''../../d/'' = ''/d'' \<and>
   normpath ''/d'' = ''/d'' \<and>
   startswith ''/d'' ''/'' \<and>
   validate_path scenario_host scenario_fs ''/d/notes.txt'' = Inl (NotADirectory ''/d/notes.txt'', 1) \<and>
   validate_path scenario_host scenario_fs ''/e'' = Inl (PathDoesNotExist ''/e'', 1)"
proof -
  have v: "validate_path scenario_host scenario_fs ''../../d/'' = Inr ''/d''"
    by code_simp
  have c: "startswith (cwd scenario_host) ''/''"
    by code_simp
  from validate_path_outcomes[of scenario_host scenario_fs "''../../d/''"] v c
  have r: "''/d'' = abspath (cwd scenario_host) ''../../d/'' \<and> normpath ''/d'' = ''/d'' \<and>
      startswith ''/d'' ''/''"
    by blast
  from r have a: "abspath (cwd scenario_host) ''../../d/'' = ''/d''"
    by (rule conjunct1[THEN sym])
  from r have n: "normpath ''/d'' = ''/d''" by blast
  from r have s: "startswith ''/d'' ''/''" by blast
  have "validate_path scenario_host scenario_fs ''/d/notes.txt'' =
      Inl (NotADirectory ''/d/notes.txt'', 1)"
    by code_simp
  moreover have "validate_path scenario_host scenario_fs ''/e'' = Inl (PathDoesNotExist ''/e'', 1)"
    by code_simp
  ultimately show ?thesis using v a n s by blast
qed

section \<open>organize_files\<close>

subsection \<open>Paths below the base directory\<close>

lemma join_relative: "\<not> startswith b ''/'' \<Longrightarrow> join a b = join a [] @ b"
  by (simp add: join_def startswith_def)

lemma valid_name_relative: "valid_name n \<Longrightarrow> \<not> startswith n ''/''"
  by (cases n) (auto simp: valid_name_def startswith_def)

lemma join_valid_inj:
  "valid_name n \<Longrightarrow> valid_name m \<Longrightarrow> join base n = join base m \<Longrightarrow> n = m"
  by (simp add: join_relative valid_name_relative)

lemma child_name_join: "valid_name n \<Longrightarrow> child_name base (join base n) = Some n"
proof -
  assume v: "valid_name n"
  then have jn: "join base n = join base [] @ n"
    by (intro join_relative valid_name_relative)
  from v show ?thesis
    unfolding child_name_def jn by (simp add: Let_def startswith_def valid_name_def)
qed

lemma set_map_filter: "set (List.map_filter f xs) = {y. \<exists>x\<in>set xs. f x = Some y}"
  by (induction xs) (auto simp: map_filter_simps split: option.splits)

lemma child_name_SomeD:
  "child_name base p = Some n \<Longrightarrow> valid_name n \<and> p = join base n"
proof -
  assume a: "child_name base p = Some n"
  let ?pre = "join base []"
  from a have s: "take (length ?pre) p = ?pre" and l: "length ?pre < length p"
    and ns: "CHR ''/'' \<notin> set (drop (length ?pre) p)" and n: "n = drop (length ?pre) p"
    by (auto simp: child_name_def Let_def startswith_def split: if_splits)
  have p: "p = ?pre @ n"
    using s n by (metis append_take_drop_id)
  have v: "valid_name n"
    using l ns n by (simp add: valid_name_def)
  with p show ?thesis
    by (simp add: join_relative[of n] valid_name_relative)
qed

lemma set_listdir:
  "set (listdir fs base) = {n. valid_name n \<and> join base n \<in> fst ` set fs}"
proof (intro set_eqI iffI)
  fix n assume "n \<in> set (listdir fs base)"
  then obtain p where p: "p \<in> set (map fst fs)" "child_name base p = Some n"
    unfolding listdir_def set_map_filter by blast
  from child_name_SomeD[OF p(2)] p(1)
  show "n \<in> {n. valid_name n \<and> join base n \<in> fst ` set fs}" by simp
next
  fix n assume "n \<in> {n. valid_name n \<and> join base n \<in> fst ` set fs}"
  then have v: "valid_name n" and j: "join base n \<in> set (map fst fs)" by simp_all
  from child_name_join[OF v, of base] j
  show "n \<in> set (listdir fs base)"
    unfolding listdir_def set_map_filter by blast
qed

lemma distinct_map_filter:
  "distinct xs \<Longrightarrow> inj_on f {x \<in> set xs. f x \<noteq> None} \<Longrightarrow> distinct (List.map_filter f xs)"
proof (induction xs)
  case Nil
  then show ?case by (simp add: map_filter_simps)
next
  case (Cons x xs)
  have inj: "inj_on f {x \<in> set xs. f x \<noteq> None}"
    by (rule inj_on_subset[OF Cons.prems(2)]) auto
  have IH: "distinct (List.map_filter f xs)"
    using Cons.IH Cons.prems(1) inj by simp
  show ?case
  proof (cases "f x")
    case None
    then show ?thesis using IH by (simp add: map_filter_simps)
  next
    case (Some y)
    have "y \<notin> set (List.map_filter f xs)"
    proof
      assume "y \<in> set (List.map_filter f xs)"
      then obtain x' where x': "x' \<in> set xs" "f x' = Some y"
        by (auto simp: set_map_filter)
      with Some Cons.prems(2) have "x = x'"
        by (auto dest!: inj_onD[where x = x and y = x'])
      with x' Cons.prems(1) show False by simp
    qed
    with Some IH show ?thesis by (simp add: map_filter_simps)
  qed
qed

lemma distinct_listdir: "distinct (map fst fs) \<Longrightarrow> distinct (listdir fs base)"
  unfolding listdir_def
proof (rule distinct_map_filter)
  show "inj_on (child_name base) {x \<in> set (map fst fs). child_name base x \<noteq> None}"
  proof (rule inj_onI)
    fix p q
    assume "p \<in> {x \<in> set (map fst fs). child_name base x \<noteq> None}"
      and "q \<in> {x \<in> set (map fst fs). child_name base x \<noteq> None}"
      and eq: "child_name base p = child_name base q"
    then obtain n where n: "child_name base p = Some n" by auto
    with eq have n': "child_name base q = Some n" by simp
    from child_name_SomeD[OF n] child_name_SomeD[OF n'] show "p = q" by simp
  qed
qed

subsection \<open>The table under a move\<close>

lemma path_exists_iff: "path_exists fs p \<longleftrightarrow> p \<in> fst ` set fs"
  by (simp add: path_exists_def map_of_eq_None_iff)

lemma finite_existing: "finite {p. path_exists fs p}"
  by (simp add: path_exists_iff)

lemma map_of_rekey:
  "dst \<notin> fst ` set fs \<Longrightarrow>
   map_of (map (\<lambda>(p, k). if p = src then (dst, k) else (p, k)) fs) q =
     (if q = dst then map_of fs src else if q = src then None else map_of fs q)"
proof (induction fs)
  case Nil
  then show ?case by simp
next
  case (Cons a fs)
  obtain p k where a: "a = (p, k)" by (cases a)
  from Cons.prems have "dst \<notin> fst ` set fs" and "p \<noteq> dst" by (auto simp: a)
  with Cons.IH show ?case by (auto simp: a)
qed

lemma distinct_rekey:
  "dst \<notin> fst ` set fs \<Longrightarrow> distinct (map fst fs) \<Longrightarrow>
   distinct (map fst (map (\<lambda>(p, k). if p = src then (dst, k) else (p, k)) fs))"
proof -
  assume dst: "dst \<notin> fst ` set fs" and d: "distinct (map fst fs)"
  let ?g = "\<lambda>p. if p = src then dst else p"
  have eq: "map fst (map (\<lambda>(p, k). if p = src then (dst, k) else (p, k)) fs) = map ?g (map fst fs)"
    by (induction fs) auto
  have "inj_on ?g (set (map fst fs))"
    using dst by (auto simp: inj_on_def)
  with d have "distinct (map ?g (map fst fs))"
    by (simp only: distinct_map)
  then show ?thesis by (simp only: eq)
qed

lemma rename_file_eq:
  assumes "\<not> isdir fs src" and "\<not> path_exists fs dst"
  shows "rename fs src dst = map (\<lambda>(p, k). if p = src then (dst, k) else (p, k)) fs"
proof -
  have "filter (\<lambda>(p, k). p \<noteq> dst) fs = fs"
    using assms(2) by (force simp: path_exists_iff filter_id_conv)
  with assms(1) show ?thesis by (auto simp: rename_def)
qed

lemma map_of_rename_file:
  assumes "\<not> isdir fs src" and "\<not> path_exists fs dst"
  shows "map_of (rename fs src dst) q =
     (if q = dst then map_of fs src else if q = src then None else map_of fs q)"
  using assms by (simp add: rename_file_eq map_of_rekey path_exists_iff)

lemma distinct_rename_file:
  assumes "\<not> isdir fs src" and "\<not> path_exists fs dst" and "distinct (map fst fs)"
  shows "distinct (map fst (rename fs src dst))"
proof -
  from assms(2) have "dst \<notin> fst ` set fs" by (simp add: path_exists_iff)
  from distinct_rekey[OF this assms(3)] show ?thesis
    by (simp only: rename_file_eq[OF assms(1,2)])
qed

lemma move_Inr:
  assumes "\<not> isdir fs src" and "\<not> path_exists fs dst" and "move h fs src dst = Inr fs'"
  shows "fs' = rename fs src dst \<and> path_exists fs src"
proof -
  from assms(2) have "\<not> isdir fs dst" by (auto simp: isdir_def path_exists_def)
  with assms(3) show ?thesis
    by (auto simp: move_def Let_def split: if_splits option.splits)
qed

text \<open>One pass of the loop body: the entry is skipped, or its move fails, or it moves.\<close>

lemma organize_entry_cases:
  obtains
    (skip) "isdir fs (join base e) \<or> is_hidden_or_system e"
      "organize_entry h base e (s, out, fs) = Some (s, out, fs)"
  | (failed) w where "\<not> isdir fs (join base e)" "\<not> is_hidden_or_system e"
      "w = PermissionDenied e \<or> w = OSErrorMoving e"
      "organize_entry h base e (s, out, fs) = Some (s, out @ [w], fs)"
  | (moved) dst where "\<not> isdir fs (join base e)" "\<not> is_hidden_or_system e"
      "path_exists fs (join base e)" "\<not> path_exists fs dst" "is_destination base e dst"
      "organize_entry h base e (s, out, fs) =
         Some (increment s (get_category e), out, rename fs (join base e) dst)"
proof (cases "isdir fs (join base e) \<or> is_hidden_or_system e")
  case True
  then have "organize_entry h base e (s, out, fs) = Some (s, out, fs)"
    by (auto simp: organize_entry_def Let_def)
  with True show ?thesis by (rule skip)
next
  case False
  then have nd: "\<not> isdir fs (join base e)" and nh: "\<not> is_hidden_or_system e" by simp_all
  let ?folder = "join base (get_category e)"
  from resolve_duplicate_total[OF finite_existing, of fs ?folder e]
  obtain dst where r: "resolve_duplicate (path_exists fs) ?folder e = Some dst"
    and free: "\<not> path_exists fs dst"
    and form: "dst = join ?folder e \<or> (\<exists>k\<ge>1. dst = candidate ?folder e k)"
    by blast
  from form have dest: "is_destination base e dst" by (simp add: is_destination_def)
  show ?thesis
  proof (cases "move h fs (join base e) dst")
    case (Inr fs')
    from move_Inr[OF nd free Inr] have fs': "fs' = rename fs (join base e) dst"
      and ex: "path_exists fs (join base e)" by simp_all
    have "organize_entry h base e (s, out, fs) =
        Some (increment s (get_category e), out, rename fs (join base e) dst)"
      using nd nh r Inr fs' by (simp add: organize_entry_def Let_def)
    with nd nh ex free dest show ?thesis by (rule moved)
  next
    case (Inl err)
    show ?thesis
    proof (cases err)
      case PermissionError
      with Inl nd nh r have "organize_entry h base e (s, out, fs) =
          Some (s, out @ [PermissionDenied e], fs)"
        by (simp add: organize_entry_def Let_def)
      with nd nh show ?thesis by (intro failed[of "PermissionDenied e"]) simp_all
    next
      case OSError
      with Inl nd nh r have "organize_entry h base e (s, out, fs) =
          Some (s, out @ [OSErrorMoving e], fs)"
        by (simp add: organize_entry_def Let_def)
      with nd nh show ?thesis by (intro failed[of "OSErrorMoving e"]) simp_all
    qed
  qed
qed

subsection \<open>Destinations are not entries of the base directory\<close>

lemma endswith_sep: "endswith s ''/'' \<longleftrightarrow> s \<noteq> [] \<and> last s = CHR ''/''"
proof (cases s rule: rev_cases)
  case Nil
  then show ?thesis by (simp add: endswith_def)
next
  case (snoc ys y)
  then show ?thesis by (auto simp: endswith_def)
qed

lemma category_shape:
  "c \<in> set CATEGORIES \<Longrightarrow> c \<noteq> [] \<and> \<not> startswith c ''/'' \<and> last c \<noteq> CHR ''/''"
  by (auto simp: CATEGORIES_def startswith_def)

lemma join_below:
  "d \<noteq> [] \<Longrightarrow> \<not> endswith d ''/'' \<Longrightarrow> \<not> startswith b ''/'' \<Longrightarrow> join d b = d @ ''/'' @ b"
  by (simp add: join_def)

lemma join_category:
  assumes "c \<in> set CATEGORIES" and "\<not> startswith b ''/''"
  shows "join (join base c) b = join base [] @ c @ ''/'' @ b"
proof -
  from category_shape[OF assms(1)] have c: "c \<noteq> []" "\<not> startswith c ''/''" "last c \<noteq> CHR ''/''"
    by simp_all
  define pre where "pre = join base []"
  have jc: "join base c = pre @ c"
    unfolding pre_def using c(2) by (rule join_relative)
  have "pre @ c \<noteq> []" using c(1) by simp
  moreover have "\<not> endswith (pre @ c) ''/''"
    using c(1,3) by (simp add: endswith_sep)
  ultimately have "join (pre @ c) b = (pre @ c) @ ''/'' @ b"
    using assms(2) by (rule join_below)
  then show ?thesis by (simp add: jc pre_def)
qed

lemma stem_relative:
  assumes "\<not> startswith e ''/''"
  shows "\<not> startswith (fst (splitext e) @ ''_'' @ x) ''/''"
proof -
  obtain rest where e: "e = fst (splitext e) @ rest"
    using splitext_fst_prefix by blast
  have "\<not> startswith (fst (splitext e)) ''/''"
  proof
    assume "startswith (fst (splitext e)) ''/''"
    then have "startswith (fst (splitext e) @ rest) ''/''"
      by (rule startswith_sep_append)
    with e assms show False by simp
  qed
  then show ?thesis
    using startswith_candidate_name[of "fst (splitext e)" x] by simp
qed

lemma destination_form:
  assumes "valid_name e" and "is_destination base e dst"
  obtains b where "dst = join base [] @ get_category e @ ''/'' @ b"
proof -
  have cat: "get_category e \<in> set CATEGORIES" by (rule get_category_cases)
  have rel: "\<not> startswith e ''/''" using assms(1) by (rule valid_name_relative)
  from assms(2) consider "dst = join (join base (get_category e)) e"
    | k where "dst = candidate (join base (get_category e)) e k"
    by (auto simp: is_destination_def)
  then show ?thesis
  proof cases
    case 1
    then have "dst = join base [] @ get_category e @ ''/'' @ e"
      by (simp only: join_category[OF cat rel])
    then show ?thesis by (rule that)
  next
    case (2 k)
    let ?b = "fst (splitext e) @ ''_'' @ str k @ snd (splitext e)"
    have "\<not> startswith ?b ''/''" using rel by (rule stem_relative)
    from join_category[OF cat this, of base] 2
    have "dst = join base [] @ get_category e @ ''/'' @ ?b"
      by (simp add: candidate_def case_prod_unfold Let_def)
    then show ?thesis by (rule that)
  qed
qed

lemma destination_not_child:
  assumes "valid_name n" and "valid_name e" and "is_destination base e dst"
  shows "dst \<noteq> join base n"
proof
  assume eq: "dst = join base n"
  obtain b where "dst = join base [] @ get_category e @ ''/'' @ b"
    using assms(2,3) by (rule destination_form)
  moreover have "join base n = join base [] @ n"
    using assms(1) by (intro join_relative valid_name_relative)
  ultimately have "n = get_category e @ ''/'' @ b" using eq by simp
  then have "CHR ''/'' \<in> set n" by simp
  with assms(1) show False by (simp add: valid_name_def)
qed

subsection \<open>The loop, one entry at a time\<close>

text \<open>
  What one pass of the loop body does to the state, for an entry with a valid name:
  other entries of the base directory keep what they had, no path becomes or ceases to
  be a directory, and the entry itself is skipped, reported or moved.
\<close>

lemma organize_entry_step:
  assumes wf: "distinct (map fst fs)" and e: "valid_name e"
  obtains s1 out1 fs1 where
    "organize_entry h base e (s, out, fs) = Some (s1, out1, fs1)"
    "distinct (map fst fs1)"
    "\<And>n. valid_name n \<Longrightarrow> n \<noteq> e \<Longrightarrow> map_of fs1 (join base n) = map_of fs (join base n)"
    "\<And>p. isdir fs1 p = isdir fs p"
    "(s1 = s \<and> out1 = out \<and> fs1 = fs \<and> (isdir fs (join base e) \<or> is_hidden_or_system e)) \<or>
     (s1 = s \<and> (\<exists>w. is_failure_report w \<and> reported_entry w = e \<and> out1 = out @ [w]) \<and> fs1 = fs \<and>
        \<not> isdir fs (join base e) \<and> \<not> is_hidden_or_system e) \<or>
     (s1 = increment s (get_category e) \<and> out1 = out \<and>
        \<not> isdir fs (join base e) \<and> \<not> is_hidden_or_system e \<and>
        path_exists fs (join base e) \<and> map_of fs1 (join base e) = None)"
proof (cases rule: organize_entry_cases[of fs base e h s out])
  case skip
  show ?thesis
    by (rule that[of s out fs]) (use skip wf in simp_all)
next
  case (failed w)
  from failed(3) have "is_failure_report w \<and> reported_entry w = e"
    by (auto simp: is_failure_report_def reported_entry_def)
  then show ?thesis
    by (intro that[of s "out @ [w]" fs]) (use failed wf in auto)
next
  case (moved dst)
  let ?src = "join base e"
  let ?fs1 = "rename fs ?src dst"
  note upd = map_of_rename_file[OF moved(1) moved(4)]
  have ne: "dst \<noteq> ?src" using moved(3,4) by auto
  show ?thesis
  proof (rule that[of "increment s (get_category e)" out ?fs1])
    show "organize_entry h base e (s, out, fs) = Some (increment s (get_category e), out, ?fs1)"
      by (rule moved(6))
    show "distinct (map fst ?fs1)"
      using moved(1) moved(4) wf by (rule distinct_rename_file)
    show "map_of ?fs1 (join base n) = map_of fs (join base n)" if "valid_name n" "n \<noteq> e" for n
    proof -
      have "join base n \<noteq> dst"
        using destination_not_child[OF that(1) e moved(5)] by simp
      moreover have "join base n \<noteq> ?src"
        using join_valid_inj[OF that(1) e] that(2) by blast
      ultimately show ?thesis by (simp add: upd)
    qed
    show "isdir ?fs1 p = isdir fs p" for p
      using moved(1) moved(4) by (auto simp: isdir_def upd path_exists_def)
    have "map_of ?fs1 ?src = None" using ne by (simp add: upd)
    with moved(1,2,3) show "(increment s (get_category e) = s \<and> out = out \<and> ?fs1 = fs \<and>
        (isdir fs ?src \<or> is_hidden_or_system e)) \<or>
     (increment s (get_category e) = s \<and> (\<exists>w. is_failure_report w \<and> reported_entry w = e \<and> out = out @ [w]) \<and> ?fs1 = fs \<and>
        \<not> isdir fs ?src \<and> \<not> is_hidden_or_system e) \<or>
     (increment s (get_category e) = increment s (get_category e) \<and> out = out \<and>
        \<not> isdir fs ?src \<and> \<not> is_hidden_or_system e \<and>
        path_exists fs ?src \<and> map_of ?fs1 ?src = None)"
      by simp
  qed
qed

subsection \<open>The summary\<close>

lemma keys_increment: "map fst (increment s c) = map fst s"
  by (induction s) (auto simp: increment_def)

lemma map_of_increment:
  "map_of (increment s c) c' = (if c' = c then map_option Suc (map_of s c') else map_of s c')"
  by (induction s) (auto simp: increment_def)

lemma sum_increment:
  "sum_list (map snd (increment s c)) =
     sum_list (map snd s) + length (filter (\<lambda>k. k = c) (map fst s))"
  by (induction s) (auto simp: increment_def)

lemma category_once: "c \<in> set CATEGORIES \<Longrightarrow> length (filter (\<lambda>k. k = c) CATEGORIES) = 1"
  by (auto simp: CATEGORIES_def)

lemma sum_increment_category:
  "map fst s = CATEGORIES \<Longrightarrow>
   sum_list (map snd (increment s (get_category e))) = sum_list (map snd s) + 1"
  by (simp add: sum_increment category_once get_category_cases)

subsection \<open>The whole loop\<close>

lemma moved_cong: "map_of fs1 p = map_of fs p \<Longrightarrow> moved fs1 fs' p = moved fs fs' p"
  by (simp add: moved_def path_exists_def)

lemma stayed_cong: "map_of fs1 p = map_of fs p \<Longrightarrow> stayed fs1 fs' p = stayed fs fs' p"
  by (simp add: stayed_def)

lemma isdir_cong: "map_of fs1 p = map_of fs p \<Longrightarrow> isdir fs1 p = isdir fs p"
  by (simp add: isdir_def)

lemma stayed_not_moved: "stayed fs fs' p \<Longrightarrow> \<not> moved fs fs' p"
  by (auto simp: stayed_def moved_def path_exists_def)

lemma organize_entries_run:
  assumes "distinct (map fst fs)" and "distinct es" and "\<forall>e\<in>set es. valid_name e"
    and "map fst s = CATEGORIES"
  shows "\<exists>st'. organize_entries h base es (s, out, fs) = Some st' \<and>
               run_post base es (s, out, fs) st'"
  using assms
proof (induction es arbitrary: s out fs)
  case Nil
  then show ?case by (simp add: run_post_def stayed_def option.map_ident)
next
  case (Cons e rest)
  from Cons.prems have wf: "distinct (map fst fs)" and e: "valid_name e"
    and e_rest: "e \<notin> set rest" and d_rest: "distinct rest"
    and v_rest: "\<forall>r\<in>set rest. valid_name r" and keys: "map fst s = CATEGORIES"
    by simp_all
  from organize_entry_step[OF wf e, of h base s out]
  obtain s1 out1 fs1 where
    step: "organize_entry h base e (s, out, fs) = Some (s1, out1, fs1)"
    and wf1: "distinct (map fst fs1)"
    and frame1: "\<And>n. valid_name n \<Longrightarrow> n \<noteq> e \<Longrightarrow> map_of fs1 (join base n) = map_of fs (join base n)"
    and dir1: "\<And>p. isdir fs1 p = isdir fs p"
    and fate: "(s1 = s \<and> out1 = out \<and> fs1 = fs \<and> (isdir fs (join base e) \<or> is_hidden_or_system e)) \<or>
     (s1 = s \<and> (\<exists>w. is_failure_report w \<and> reported_entry w = e \<and> out1 = out @ [w]) \<and> fs1 = fs \<and>
        \<not> isdir fs (join base e) \<and> \<not> is_hidden_or_system e) \<or>
     (s1 = increment s (get_category e) \<and> out1 = out \<and>
        \<not> isdir fs (join base e) \<and> \<not> is_hidden_or_system e \<and>
        path_exists fs (join base e) \<and> map_of fs1 (join base e) = None)"
    by blast
  have keys1: "map fst s1 = CATEGORIES"
    using fate keys by (auto simp: keys_increment)
  from Cons.IH[OF wf1 d_rest v_rest keys1, of out1]
  obtain st' where run: "organize_entries h base rest (s1, out1, fs1) = Some st'"
    and post: "run_post base rest (s1, out1, fs1) st'"
    by blast
  obtain s' out' fs' where st': "st' = (s', out', fs')" by (cases st')
  from post have wf': "distinct (map fst fs')"
    and frame': "\<And>n. valid_name n \<Longrightarrow> n \<notin> set rest \<Longrightarrow> stayed fs1 fs' (join base n)"
    and fate': "\<And>r. r \<in> set rest \<Longrightarrow> stayed fs1 fs' (join base r) \<or>
           (moved fs1 fs' (join base r) \<and> \<not> isdir fs1 (join base r) \<and> \<not> is_hidden_or_system r)"
    and dir': "\<And>p. isdir fs' p = isdir fs1 p"
    and keys': "map fst s' = map fst s1"
    and cat': "\<And>c. map_of s' c =
           map_option (\<lambda>n. n + length (filter (\<lambda>e. get_category e = c \<and>
              moved fs1 fs' (join base e)) rest)) (map_of s1 c)"
    and sum': "sum_list (map snd s') =
          sum_list (map snd s1) + length (filter (\<lambda>e. moved fs1 fs' (join base e)) rest)"
    and out': "\<exists>ws. out' = out1 @ ws \<and> (\<forall>w\<in>set ws. is_failure_report w) \<and>
           map reported_entry ws = filter (\<lambda>e. \<not> isdir fs1 (join base e) \<and>
              \<not> is_hidden_or_system e \<and> stayed fs1 fs' (join base e)) rest"
    unfolding run_post_def st' by auto
  txt \<open>The entries of the rest see the same table before and after the first step.\<close>
  have same: "map_of fs1 (join base r) = map_of fs (join base r)" if "r \<in> set rest" for r
    using frame1[of r] that v_rest e_rest by auto
  have mv: "filter (\<lambda>r. P r \<and> moved fs1 fs' (join base r)) rest =
            filter (\<lambda>r. P r \<and> moved fs fs' (join base r)) rest" for P
    by (rule filter_cong) (simp_all add: moved_cong[OF same])
  have mv0: "filter (\<lambda>r. moved fs1 fs' (join base r)) rest =
            filter (\<lambda>r. moved fs fs' (join base r)) rest"
    by (rule filter_cong) (simp_all add: moved_cong[OF same])
  have stf: "filter (\<lambda>r. \<not> isdir fs1 (join base r) \<and> \<not> is_hidden_or_system r \<and>
                 stayed fs1 fs' (join base r)) rest =
            filter (\<lambda>r. \<not> isdir fs (join base r) \<and> \<not> is_hidden_or_system r \<and>
                 stayed fs fs' (join base r)) rest"
    by (rule filter_cong) (simp_all add: stayed_cong[OF same] isdir_cong[OF same])
  txt \<open>The first entry is not touched by the rest of the loop.\<close>
  have e': "map_of fs' (join base e) = map_of fs1 (join base e)"
    using frame'[OF e e_rest] by (simp add: stayed_def)
  have cat: "map_of s' c =
           map_option (\<lambda>n. n + length (filter (\<lambda>e. get_category e = c \<and>
              moved fs fs' (join base e)) rest)) (map_of s1 c)" for c
    using cat'[of c] by (simp only: mv)
  have sum: "sum_list (map snd s') =
          sum_list (map snd s1) + length (filter (\<lambda>e. moved fs fs' (join base e)) rest)"
    using sum' by (simp only: mv0)
  from out' obtain ws where ws: "out' = out1 @ ws" "\<forall>w\<in>set ws. is_failure_report w"
      "map reported_entry ws = filter (\<lambda>e. \<not> isdir fs (join base e) \<and>
              \<not> is_hidden_or_system e \<and> stayed fs fs' (join base e)) rest"
    unfolding stf by blast
  txt \<open>What became of the first entry, in terms of the states before and after the loop.\<close>
  let ?src = "join base e"
  let ?visible = "\<not> isdir fs ?src \<and> \<not> is_hidden_or_system e"
  have kept: "stayed fs fs' ?src \<and> \<not> moved fs fs' ?src" if "fs1 = fs"
    using e' that by (auto simp: stayed_def moved_def path_exists_def)
  have left: "moved fs fs' ?src \<and> \<not> stayed fs fs' ?src"
    if "path_exists fs ?src" "map_of fs1 ?src = None"
    using e' that by (auto simp: stayed_def moved_def path_exists_def)
  from fate kept left consider
      (skip) "s1 = s" "out1 = out" "stayed fs fs' ?src" "\<not> moved fs fs' ?src" "\<not> ?visible"
    | (failed) w where "s1 = s" "out1 = out @ [w]" "is_failure_report w"
        "stayed fs fs' ?src" "\<not> moved fs fs' ?src" "?visible" "reported_entry w = e"
    | (gone) "s1 = increment s (get_category e)" "out1 = out"
        "moved fs fs' ?src" "\<not> stayed fs fs' ?src" "?visible"
    by blast
  then have "run_post base (e # rest) (s, out, fs) (s', out', fs')"
  proof cases
    case skip
    show ?thesis
      unfolding run_post_def prod.case
    proof (intro conjI allI ballI impI)
      show "distinct (map fst fs')" by (rule wf')
      show "stayed fs fs' (join base n)" if "valid_name n \<and> n \<notin> set (e # rest)" for n
        using frame'[of n] frame1[of n] that by (simp add: stayed_def)
      show "stayed fs fs' (join base r) \<or>
           (moved fs fs' (join base r) \<and> \<not> isdir fs (join base r) \<and> \<not> is_hidden_or_system r)"
        if "r \<in> set (e # rest)" for r
      proof (cases "r = e")
        case True
        with skip(3) show ?thesis by simp
      next
        case False
        with that have r: "r \<in> set rest" by simp
        from fate'[OF r] show ?thesis
          by (simp add: stayed_cong[OF same[OF r]] moved_cong[OF same[OF r]]
              isdir_cong[OF same[OF r]])
      qed
      show "isdir fs' p = isdir fs p" for p by (simp add: dir' dir1)
      show "map fst s' = map fst s" using keys' keys1 keys by simp
      show "map_of s' c =
           map_option (\<lambda>n. n + length (filter (\<lambda>e. get_category e = c \<and>
              moved fs fs' (join base e)) (e # rest))) (map_of s c)" for c
        using cat[of c] skip by simp
      show "sum_list (map snd s') =
          sum_list (map snd s) + length (filter (\<lambda>e. moved fs fs' (join base e)) (e # rest))"
        using sum skip by simp
      show "\<exists>ws. out' = out @ ws \<and> (\<forall>w\<in>set ws. is_failure_report w) \<and>
           map reported_entry ws = filter (\<lambda>e. \<not> isdir fs (join base e) \<and>
              \<not> is_hidden_or_system e \<and> stayed fs fs' (join base e)) (e # rest)"
        using ws skip by (intro exI[of _ ws]) auto
    qed
  next
    case (failed w)
    show ?thesis
      unfolding run_post_def prod.case
    proof (intro conjI allI ballI impI)
      show "distinct (map fst fs')" by (rule wf')
      show "stayed fs fs' (join base n)" if "valid_name n \<and> n \<notin> set (e # rest)" for n
        using frame'[of n] frame1[of n] that by (simp add: stayed_def)
      show "stayed fs fs' (join base r) \<or>
           (moved fs fs' (join base r) \<and> \<not> isdir fs (join base r) \<and> \<not> is_hidden_or_system r)"
        if "r \<in> set (e # rest)" for r
      proof (cases "r = e")
        case True
        with failed(4) show ?thesis by simp
      next
        case False
        with that have r: "r \<in> set rest" by simp
        from fate'[OF r] show ?thesis
          by (simp add: stayed_cong[OF same[OF r]] moved_cong[OF same[OF r]]
              isdir_cong[OF same[OF r]])
      qed
      show "isdir fs' p = isdir fs p" for p by (simp add: dir' dir1)
      show "map fst s' = map fst s" using keys' keys1 keys by simp
      show "map_of s' c =
           map_option (\<lambda>n. n + length (filter (\<lambda>e. get_category e = c \<and>
              moved fs fs' (join base e)) (e # rest))) (map_of s c)" for c
        using cat[of c] failed by simp
      show "sum_list (map snd s') =
          sum_list (map snd s) + length (filter (\<lambda>e. moved fs fs' (join base e)) (e # rest))"
        using sum failed by simp
      show "\<exists>ws. out' = out @ ws \<and> (\<forall>w\<in>set ws. is_failure_report w) \<and>
           map reported_entry ws = filter (\<lambda>e. \<not> isdir fs (join base e) \<and>
              \<not> is_hidden_or_system e \<and> stayed fs fs' (join base e)) (e # rest)"
        using ws failed by (intro exI[of _ "w # ws"]) auto
    qed
  next
    case gone
    show ?thesis
      unfolding run_post_def prod.case
    proof (intro conjI allI ballI impI)
      show "distinct (map fst fs')" by (rule wf')
      show "stayed fs fs' (join base n)" if "valid_name n \<and> n \<notin> set (e # rest)" for n
        using frame'[of n] frame1[of n] that by (simp add: stayed_def)
      show "stayed fs fs' (join base r) \<or>
           (moved fs fs' (join base r) \<and> \<not> isdir fs (join base r) \<and> \<not> is_hidden_or_system r)"
        if "r \<in> set (e # rest)" for r
      proof (cases "r = e")
        case True
        with gone(3,5) show ?thesis by simp
      next
        case False
        with that have r: "r \<in> set rest" by simp
        from fate'[OF r] show ?thesis
          by (simp add: stayed_cong[OF same[OF r]] moved_cong[OF same[OF r]]
              isdir_cong[OF same[OF r]])
      qed
      show "isdir fs' p = isdir fs p" for p by (simp add: dir' dir1)
      show "map fst s' = map fst s" using keys' keys1 keys by simp
      show "map_of s' c =
           map_option (\<lambda>n. n + length (filter (\<lambda>e. get_category e = c \<and>
              moved fs fs' (join base e)) (e # rest))) (map_of s c)" for c
        using cat[of c] gone
        by (simp add: map_of_increment option.map_comp comp_def)
      show "sum_list (map snd s') =
          sum_list (map snd s) + length (filter (\<lambda>e. moved fs fs' (join base e)) (e # rest))"
        using sum gone keys by (simp add: sum_increment_category)
      show "\<exists>ws. out' = out @ ws \<and> (\<forall>w\<in>set ws. is_failure_report w) \<and>
           map reported_entry ws = filter (\<lambda>e. \<not> isdir fs (join base e) \<and>
              \<not> is_hidden_or_system e \<and> stayed fs fs' (join base e)) (e # rest)"
        using ws gone by (intro exI[of _ ws]) auto
    qed
  qed
  moreover have "organize_entries h base (e # rest) (s, out, fs) = Some (s', out', fs')"
    using step run st' by simp
  ultimately show ?case by blast
qed

subsection \<open>organize_files on a directory\<close>

lemma listdir_valid: "e \<in> set (listdir fs base) \<Longrightarrow> valid_name e"
  by (simp add: set_listdir)

lemma listdir_exists: "e \<in> set (listdir fs base) \<Longrightarrow> path_exists fs (join base e)"
  by (simp add: set_listdir path_exists_iff)

lemma keys_initial_summary: "map fst initial_summary = CATEGORIES"
  by (simp add: initial_summary_def comp_def)

lemma map_of_initial_summary:
  "map_of initial_summary c = (if c \<in> set CATEGORIES then Some 0 else None)"
  by (simp add: initial_summary_def map_of_map_restrict restrict_map_def)

lemma sum_initial_summary: "sum_list (map snd initial_summary) = 0"
  by (simp add: initial_summary_def comp_def)

lemma organize_files_run:
  assumes "distinct (map fst fs)" and "isdir fs base"
  obtains summary out fs' where
    "organize_files h fs base = Some (Inr (summary, out, fs'))"
    "run_post base (listdir fs base) (initial_summary, [], fs) (summary, out, fs')"
proof -
  have "\<forall>e\<in>set (listdir fs base). valid_name e"
    using listdir_valid by blast
  from organize_entries_run[OF assms(1) distinct_listdir[OF assms(1)] this keys_initial_summary,
      of h base "[]"]
  obtain st' where run: "organize_entries h base (listdir fs base) (initial_summary, [], fs) = Some st'"
    and post: "run_post base (listdir fs base) (initial_summary, [], fs) st'"
    by blast
  obtain summary out fs' where st': "st' = (summary, out, fs')" by (cases st')
  have "organize_files h fs base = Some (Inr (summary, out, fs'))"
    using assms(2) run st' by (simp add: organize_files_def)
  then show ?thesis using post unfolding st' by (rule that)
qed

text \<open>Three kinds of entries that together make up a fourth.\<close>

lemma length_filter_partition:
  assumes "\<And>x. x \<in> set xs \<Longrightarrow> N x \<Longrightarrow>
      (A x \<and> \<not> B x \<and> \<not> C x) \<or> (\<not> A x \<and> B x \<and> \<not> C x) \<or> (\<not> A x \<and> \<not> B x \<and> C x)"
    and "\<And>x. x \<in> set xs \<Longrightarrow> \<not> N x \<Longrightarrow> \<not> A x \<and> \<not> B x \<and> \<not> C x"
  shows "length (filter A xs) + length (filter B xs) + length (filter C xs) = length (filter N xs)"
  using assms
proof (induction xs)
  case Nil
  then show ?case by simp
next
  case (Cons x xs)
  have IH: "length (filter A xs) + length (filter B xs) + length (filter C xs) = length (filter N xs)"
    by (rule Cons.IH) (use Cons.prems in auto)
  show ?case
  proof (cases "N x")
    case True
    from Cons.prems(1)[OF _ True] IH True show ?thesis by auto
  next
    case False
    from Cons.prems(2)[OF _ False] IH False show ?thesis by auto
  qed
qed

text \<open>
  C2: \<open>organize_files\<close> on a directory returns, and the counts of its summary, the
  non-directory entries whose name starts with a dot, and the failure reports it printed
  add up to the number of non-directory entries that the directory had before the run.
  (The entries skipped as hidden are those that reach the hidden check, so a directory
  with a dot name counts as a directory.)
\<close>

theorem total_conservation:
  assumes "distinct (map fst fs)" and "isdir fs base_path"
  shows "\<exists>summary out fs'.
      organize_files h fs base_path = Some (Inr (summary, out, fs')) \<and>
      sum_list (summary_values summary) +
        length (filter is_hidden_or_system (non_directory_entries fs base_path)) +
        length (filter is_failure_report out) =
      length (non_directory_entries fs base_path)"
proof -
  let ?es = "listdir fs base_path"
  let ?src = "join base_path"
  from organize_files_run[OF assms, of h]
  obtain summary out fs' where run: "organize_files h fs base_path = Some (Inr (summary, out, fs'))"
    and post: "run_post base_path ?es (initial_summary, [], fs) (summary, out, fs')"
    by blast
  from post have fate: "\<And>e. e \<in> set ?es \<Longrightarrow> stayed fs fs' (?src e) \<or>
           (moved fs fs' (?src e) \<and> \<not> isdir fs (?src e) \<and> \<not> is_hidden_or_system e)"
    and sum: "sum_list (map snd summary) =
          sum_list (map snd initial_summary) + length (filter (\<lambda>e. moved fs fs' (?src e)) ?es)"
    and out: "\<exists>ws. out = [] @ ws \<and> (\<forall>w\<in>set ws. is_failure_report w) \<and>
           map reported_entry ws = filter (\<lambda>e. \<not> isdir fs (?src e) \<and>
              \<not> is_hidden_or_system e \<and> stayed fs fs' (?src e)) ?es"
    unfolding run_post_def by auto
  have moved_count: "sum_list (summary_values summary) = length (filter (\<lambda>e. moved fs fs' (?src e)) ?es)"
    using sum by (simp add: summary_values_def sum_initial_summary)
  from out have "\<forall>w\<in>set out. is_failure_report w" by auto
  then have "filter is_failure_report out = out" by (simp add: filter_id_conv)
  moreover from out have "length (map reported_entry out) =
      length (filter (\<lambda>e. \<not> isdir fs (?src e) \<and> \<not> is_hidden_or_system e \<and> stayed fs fs' (?src e)) ?es)"
    by auto
  ultimately have failed_count: "length (filter is_failure_report out) =
      length (filter (\<lambda>e. \<not> isdir fs (?src e) \<and> \<not> is_hidden_or_system e \<and> stayed fs fs' (?src e)) ?es)"
    by simp
  have hidden_count: "filter is_hidden_or_system (non_directory_entries fs base_path) =
      filter (\<lambda>e. \<not> isdir fs (?src e) \<and> is_hidden_or_system e) ?es"
    by (simp add: non_directory_entries_def conj_commute)
  have nd: "length (non_directory_entries fs base_path) =
      length (filter (\<lambda>e. \<not> isdir fs (?src e)) ?es)"
    by (simp add: non_directory_entries_def)
  have part: "length (filter (\<lambda>e. moved fs fs' (?src e)) ?es) +
        length (filter (\<lambda>e. \<not> isdir fs (?src e) \<and> is_hidden_or_system e) ?es) +
        length (filter (\<lambda>e. \<not> isdir fs (?src e) \<and> \<not> is_hidden_or_system e \<and> stayed fs fs' (?src e)) ?es) =
        length (filter (\<lambda>e. \<not> isdir fs (?src e)) ?es)"
  proof (rule length_filter_partition)
    fix e assume e: "e \<in> set ?es" and "\<not> isdir fs (?src e)"
    with fate[OF e] stayed_not_moved[of fs fs' "?src e"]
    show "(moved fs fs' (?src e) \<and> \<not> (\<not> isdir fs (?src e) \<and> is_hidden_or_system e) \<and>
             \<not> (\<not> isdir fs (?src e) \<and> \<not> is_hidden_or_system e \<and> stayed fs fs' (?src e))) \<or>
          (\<not> moved fs fs' (?src e) \<and> (\<not> isdir fs (?src e) \<and> is_hidden_or_system e) \<and>
             \<not> (\<not> isdir fs (?src e) \<and> \<not> is_hidden_or_system e \<and> stayed fs fs' (?src e))) \<or>
          (\<not> moved fs fs' (?src e) \<and> \<not> (\<not> isdir fs (?src e) \<and> is_hidden_or_system e) \<and>
             (\<not> isdir fs (?src e) \<and> \<not> is_hidden_or_system e \<and> stayed fs fs' (?src e)))"
      by blast
  next
    fix e assume e: "e \<in> set ?es" and "\<not> \<not> isdir fs (?src e)"
    with fate[OF e] stayed_not_moved[of fs fs' "?src e"]
    show "\<not> moved fs fs' (?src e) \<and> \<not> (\<not> isdir fs (?src e) \<and> is_hidden_or_system e) \<and>
          \<not> (\<not> isdir fs (?src e) \<and> \<not> is_hidden_or_system e \<and> stayed fs fs' (?src e))"
      by blast
  qed
  have "sum_list (summary_values summary) +
        length (filter is_hidden_or_system (non_directory_entries fs base_path)) +
        length (filter is_failure_report out) =
      length (non_directory_entries fs base_path)"
    unfolding moved_count failed_count hidden_count nd by (rule part)
  with run show ?thesis by blast
qed

subsection \<open>Provisioning and the entry point\<close>

lemma makedirs_cases:
  assumes "makedirs h fs folder = Inr fs'"
  shows "(isdir fs folder \<and> fs' = fs) \<or> (\<not> path_exists fs folder \<and> fs' = fs @ [(folder, Dir)])"
proof (cases "isdir fs folder")
  case True
  with assms show ?thesis by (simp add: makedirs_def)
next
  case False
  note nd = this
  show ?thesis
  proof (cases "path_exists fs folder")
    case True
    with assms nd show ?thesis by (simp add: makedirs_def)
  next
    case False
    with assms nd show ?thesis
      by (cases "mkdir_refused h folder") (simp_all add: makedirs_def)
  qed
qed

lemma map_of_snoc_new:
  "map_of fs q = None \<Longrightarrow> map_of (fs @ [(q, v)]) p = (if p = q then Some v else map_of fs p)"
  by (induction fs) auto

lemma makedirs_Inr:
  assumes "makedirs h fs folder = Inr fs'"
  shows "isdir fs' folder"
    and "distinct (map fst fs) \<Longrightarrow> distinct (map fst fs')"
    and "map_of fs p = Some k \<Longrightarrow> map_of fs' p = Some k"
proof -
  from makedirs_cases[OF assms] consider
      (present) "isdir fs folder" "fs' = fs"
    | (created) "map_of fs folder = None" "fs' = fs @ [(folder, Dir)]"
    by (auto simp: path_exists_def)
  then have "isdir fs' folder \<and> (distinct (map fst fs) \<longrightarrow> distinct (map fst fs')) \<and>
      (map_of fs p = Some k \<longrightarrow> map_of fs' p = Some k)"
  proof cases
    case present
    then show ?thesis by simp
  next
    case created
    have m: "map_of fs' q = (if q = folder then Some Dir else map_of fs q)" for q
      unfolding created(2) using created(1) by (rule map_of_snoc_new)
    have "folder \<notin> fst ` set fs"
      using created(1) by (simp add: map_of_eq_None_iff)
    then have "distinct (map fst fs) \<longrightarrow> distinct (map fst fs')"
      by (simp add: created(2))
    moreover have "isdir fs' folder" by (simp add: isdir_def m)
    moreover have "map_of fs p = Some k \<longrightarrow> map_of fs' p = Some k"
      using created(1) by (auto simp: m)
    ultimately show ?thesis by blast
  qed
  then show "isdir fs' folder"
    and "distinct (map fst fs) \<Longrightarrow> distinct (map fst fs')"
    and "map_of fs p = Some k \<Longrightarrow> map_of fs' p = Some k"
    by blast+
qed

lemma create_folders_None:
  assumes "create_folders h base cs fs0 = (fs, None)"
  shows "(distinct (map fst fs0) \<longrightarrow> distinct (map fst fs)) \<and>
         (\<forall>p k. map_of fs0 p = Some k \<longrightarrow> map_of fs p = Some k) \<and>
         (\<forall>c\<in>set cs. isdir fs (join base c))"
  using assms
proof (induction cs arbitrary: fs0)
  case Nil
  then show ?case by simp
next
  case (Cons c cs)
  from Cons.prems obtain fs1 where mk: "makedirs h fs0 (join base c) = Inr fs1"
    and rest: "create_folders h base cs fs1 = (fs, None)"
    by (auto simp: Let_def split: sum.splits)
  from Cons.IH[OF rest] have IH1: "distinct (map fst fs1) \<longrightarrow> distinct (map fst fs)"
    and IH2: "\<And>p k. map_of fs1 p = Some k \<Longrightarrow> map_of fs p = Some k"
    and IH3: "\<forall>c\<in>set cs. isdir fs (join base c)"
    by blast+
  have "isdir fs (join base c)"
    using makedirs_Inr(1)[OF mk] IH2 by (simp add: isdir_def)
  moreover have "map_of fs p = Some k" if "map_of fs0 p = Some k" for p k
    using makedirs_Inr(3)[OF mk that] by (rule IH2)
  moreover have "distinct (map fst fs)" if "distinct (map fst fs0)"
    using makedirs_Inr(2)[OF mk that] IH1 by simp
  ultimately show ?case using IH3 by simp
qed

lemma create_folders_present:
  "\<forall>c\<in>set cs. isdir fs (join base c) \<Longrightarrow> create_folders h base cs fs = (fs, None)"
  by (induction cs) (simp_all add: makedirs_def)

lemma validate_path_Inl: "validate_path h fs path = Inl (m, status) \<Longrightarrow> status = 1"
  by (auto simp: validate_path_def Let_def split: if_splits)

lemma validate_path_Inr:
  "validate_path h fs path = Inr target \<Longrightarrow>
   target = abspath (cwd h) path \<and> isdir fs target \<and> access_rw h target"
  by (auto simp: validate_path_def Let_def split: if_splits)

lemma validate_path_again:
  assumes "validate_path h fs path = Inr target" and "isdir fs' target"
  shows "validate_path h fs' path = Inr target"
proof -
  note v = validate_path_Inr[OF assms(1)]
  from v have t: "abspath (cwd h) path = target" by blast
  from v have a: "access_rw h target" by blast
  from assms(2) have "path_exists fs' target" by (rule isdir_exists)
  with assms(2) a show ?thesis
    by (simp add: validate_path_def Let_def t)
qed

text \<open>What a run of \<open>main\<close> that ends with status 0 went through.\<close>

lemma main_status_0:
  assumes "main h fs0 argv = Some (0, out1, fs1)"
  obtains target fs summary out where
    "length argv = 2"
    "validate_path h fs0 (argv ! 1) = Inr target"
    "create_category_folders h fs0 target = (fs, None)"
    "organize_files h fs target = Some (Inr (summary, out, fs1))"
    "out1 = [Scanning target] @ out @ print_summary summary @ [Done]"
proof -
  from assms have len: "length argv = 2"
    by (auto simp: main_def split: if_splits)
  show ?thesis
  proof (cases "validate_path h fs0 (argv ! 1)")
    case (Inl a)
    obtain m status where a: "a = (m, status)" by (cases a)
    from validate_path_Inl[of h fs0 "argv ! 1" m status] Inl a have "status = 1" by simp
    with assms len Inl a show ?thesis by (simp add: main_def)
  next
    case (Inr target)
    obtain fs err where cr: "create_category_folders h fs0 target = (fs, err)"
      by (cases "create_category_folders h fs0 target")
    show ?thesis
    proof (cases err)
      case (Some e)
      with assms len Inr cr show ?thesis by (simp add: main_def)
    next
      case None
      with assms len Inr cr obtain summary out where
        "organize_files h fs target = Some (Inr (summary, out, fs1))"
        "out1 = [Scanning target] @ out @ print_summary summary @ [Done]"
        by (auto simp: main_def split: option.splits sum.splits)
      with len Inr cr None show ?thesis by (intro that) simp_all
    qed
  qed
qed

lemma main_after_provisioning:
  assumes "length argv = 2" and "validate_path h fs0 (argv ! 1) = Inr base"
    and "create_category_folders h fs0 base = (fs, None)"
    and "organize_files h fs base = Some (Inr (summary, out, fs'))"
  shows "main h fs0 argv = Some (0, [Scanning base] @ out @ print_summary summary @ [Done], fs')"
  using assms by (simp add: main_def)

subsection \<open>Properties of a run\<close>

text \<open>
  C1: on a directory, \<open>organize_files\<close> returns whatever the moves did, so no failure
  ends the loop. Everything it prints is a failure report, and the entries it reports
  are, in the order of the listing, the visible non-directory entries that stayed where
  they were; every entry has either stayed or moved away; the count of each category is the number of its entries that moved away, so a
  failed entry is in no count. When \<open>main\<close> reaches the loop (two arguments, a valid
  path, the folders made), it ends with exit status 0 whatever the loop reported.
\<close>

theorem partial_failure_isolation:
  assumes "distinct (map fst fs)" and "isdir fs base_path"
  shows "\<exists>summary out fs'.
      organize_files h fs base_path = Some (Inr (summary, out, fs')) \<and>
      (\<forall>w\<in>set out. is_failure_report w) \<and>
      map reported_entry out =
        filter (\<lambda>e. \<not> isdir fs (join base_path e) \<and> \<not> is_hidden_or_system e \<and>
                  stayed fs fs' (join base_path e)) (listdir fs base_path) \<and>
      (\<forall>e\<in>set (listdir fs base_path).
          stayed fs fs' (join base_path e) \<or> moved fs fs' (join base_path e)) \<and>
      (\<forall>c\<in>set CATEGORIES.
          map_of summary c =
            Some (length (filter (\<lambda>e. get_category e = c \<and> moved fs fs' (join base_path e))
                    (listdir fs base_path)))) \<and>
      (\<forall>fs0 argv.
          length argv = 2 \<and> validate_path h fs0 (argv ! 1) = Inr base_path \<and>
          create_category_folders h fs0 base_path = (fs, None) \<longrightarrow>
          main h fs0 argv =
            Some (0, [Scanning base_path] @ out @ print_summary summary @ [Done], fs'))"
proof -
  let ?es = "listdir fs base_path"
  let ?src = "join base_path"
  from organize_files_run[OF assms, of h]
  obtain summary out fs' where run: "organize_files h fs base_path = Some (Inr (summary, out, fs'))"
    and post: "run_post base_path ?es (initial_summary, [], fs) (summary, out, fs')"
    by blast
  from post have fate: "\<And>e. e \<in> set ?es \<Longrightarrow> stayed fs fs' (?src e) \<or>
           (moved fs fs' (?src e) \<and> \<not> isdir fs (?src e) \<and> \<not> is_hidden_or_system e)"
    and cat: "\<And>c. map_of summary c =
           map_option (\<lambda>n. n + length (filter (\<lambda>e. get_category e = c \<and>
              moved fs fs' (?src e)) ?es)) (map_of initial_summary c)"
    and out: "\<exists>ws. out = [] @ ws \<and> (\<forall>w\<in>set ws. is_failure_report w) \<and>
           map reported_entry ws = filter (\<lambda>e. \<not> isdir fs (?src e) \<and>
              \<not> is_hidden_or_system e \<and> stayed fs fs' (?src e)) ?es"
    unfolding run_post_def by auto
  have 1: "\<forall>w\<in>set out. is_failure_report w" using out by auto
  have 2: "map reported_entry out = filter (\<lambda>e. \<not> isdir fs (?src e) \<and> \<not> is_hidden_or_system e \<and>
                          stayed fs fs' (?src e)) ?es"
    using out by auto
  have 3: "\<forall>e\<in>set ?es. stayed fs fs' (?src e) \<or> moved fs fs' (?src e)"
    using fate by blast
  have 4: "\<forall>c\<in>set CATEGORIES. map_of summary c =
            Some (length (filter (\<lambda>e. get_category e = c \<and> moved fs fs' (?src e)) ?es))"
    by (simp add: cat map_of_initial_summary)
  have 5: "\<forall>fs0 argv.
          length argv = 2 \<and> validate_path h fs0 (argv ! 1) = Inr base_path \<and>
          create_category_folders h fs0 base_path = (fs, None) \<longrightarrow>
          main h fs0 argv =
            Some (0, [Scanning base_path] @ out @ print_summary summary @ [Done], fs')"
    using main_after_provisioning[OF _ _ _ run] by blast
  from run 1 2 3 4 5 show ?thesis by blast
qed

text \<open>The hidden check of the program is the check for a leading dot.\<close>

lemma leading_dot: "is_hidden_or_system e \<longleftrightarrow> (\<exists>r. e = CHR ''.'' # r)"
  by (cases e) (auto simp: is_hidden_or_system_def startswith_def)

text \<open>
  C7: after \<open>organize_files\<close> on a directory, every entry whose name starts with a dot
  has stayed where it was, and each count of the summary is the number of entries of
  that category without a leading dot that moved away, as is their total: an entry with
  a leading dot is in no count.
\<close>

theorem hidden_file_exclusion:
  assumes "distinct (map fst fs)" and "isdir fs base_path"
  shows "\<exists>summary out fs'.
      organize_files h fs base_path = Some (Inr (summary, out, fs')) \<and>
      (\<forall>e\<in>set (listdir fs base_path).
          (\<exists>r. e = CHR ''.'' # r) \<longrightarrow> stayed fs fs' (join base_path e)) \<and>
      (\<forall>c\<in>set CATEGORIES.
          map_of summary c =
            Some (length (filter (\<lambda>e. get_category e = c \<and> \<not> (\<exists>r. e = CHR ''.'' # r) \<and>
                                  moved fs fs' (join base_path e)) (listdir fs base_path)))) \<and>
      sum_list (summary_values summary) =
        length (filter (\<lambda>e. \<not> (\<exists>r. e = CHR ''.'' # r) \<and> moved fs fs' (join base_path e))
                  (listdir fs base_path))"
proof -
  let ?es = "listdir fs base_path"
  let ?src = "join base_path"
  from organize_files_run[OF assms, of h]
  obtain summary out fs' where run: "organize_files h fs base_path = Some (Inr (summary, out, fs'))"
    and post: "run_post base_path ?es (initial_summary, [], fs) (summary, out, fs')"
    by blast
  from post have fate: "\<And>e. e \<in> set ?es \<Longrightarrow> stayed fs fs' (?src e) \<or>
           (moved fs fs' (?src e) \<and> \<not> isdir fs (?src e) \<and> \<not> (\<exists>r. e = CHR ''.'' # r))"
    and cat: "\<And>c. map_of summary c =
           map_option (\<lambda>n. n + length (filter (\<lambda>e. get_category e = c \<and>
              moved fs fs' (?src e)) ?es)) (map_of initial_summary c)"
    and sum: "sum_list (map snd summary) =
          sum_list (map snd initial_summary) + length (filter (\<lambda>e. moved fs fs' (?src e)) ?es)"
    unfolding run_post_def leading_dot by auto
  have visible: "moved fs fs' (?src e) \<longleftrightarrow> \<not> (\<exists>r. e = CHR ''.'' # r) \<and> moved fs fs' (?src e)"
    if "e \<in> set ?es" for e
    using fate[OF that] stayed_not_moved[of fs fs' "?src e"] by blast
  have f1: "filter (\<lambda>e. get_category e = c \<and> moved fs fs' (?src e)) ?es =
            filter (\<lambda>e. get_category e = c \<and> \<not> (\<exists>r. e = CHR ''.'' # r) \<and> moved fs fs' (?src e)) ?es"
    for c
    by (rule filter_cong) (use visible in auto)
  have f0: "filter (\<lambda>e. moved fs fs' (?src e)) ?es =
            filter (\<lambda>e. \<not> (\<exists>r. e = CHR ''.'' # r) \<and> moved fs fs' (?src e)) ?es"
    by (rule filter_cong) (use visible in auto)
  have 1: "\<forall>e\<in>set ?es. (\<exists>r. e = CHR ''.'' # r) \<longrightarrow> stayed fs fs' (?src e)"
    using fate by blast
  have 2: "\<forall>c\<in>set CATEGORIES. map_of summary c =
            Some (length (filter (\<lambda>e. get_category e = c \<and> \<not> (\<exists>r. e = CHR ''.'' # r) \<and>
                                  moved fs fs' (?src e)) ?es))"
    by (simp add: cat map_of_initial_summary f1)
  have 3: "sum_list (summary_values summary) =
        length (filter (\<lambda>e. \<not> (\<exists>r. e = CHR ''.'' # r) \<and> moved fs fs' (?src e)) ?es)"
    using sum by (simp add: summary_values_def sum_initial_summary f0)
  from run 1 2 3 show ?thesis by blast
qed

text \<open>When every entry is a directory or hidden, the loop changes nothing.\<close>

lemma organize_entries_all_skipped:
  "\<forall>e\<in>set es. isdir fs (join base e) \<or> is_hidden_or_system e \<Longrightarrow>
   organize_entries h base es (s, out, fs) = Some (s, out, fs)"
  by (induction es) (auto simp: organize_entry_def Let_def)

text \<open>After a run without a failure report, only directories and hidden entries are left.\<close>

lemma nothing_left:
  assumes wf: "distinct (map fst fs)" and dir: "isdir fs base"
    and run: "organize_files h fs base = Some (Inr (summary, [], fs'))"
  shows "organize_files h' fs' base = Some (Inr (initial_summary, [], fs'))"
proof -
  let ?es = "listdir fs base"
  let ?src = "join base"
  from organize_files_run[OF wf dir, of h] run
  have post: "run_post base ?es (initial_summary, [], fs) (summary, [], fs')"
    by auto
  from post have fate: "\<And>e. e \<in> set ?es \<Longrightarrow> stayed fs fs' (?src e) \<or>
           (moved fs fs' (?src e) \<and> \<not> isdir fs (?src e) \<and> \<not> is_hidden_or_system e)"
    and frame: "\<And>n. valid_name n \<Longrightarrow> n \<notin> set ?es \<Longrightarrow> stayed fs fs' (?src n)"
    and isd: "\<And>p. isdir fs' p = isdir fs p"
    and out: "filter (\<lambda>e. \<not> isdir fs (?src e) \<and>
              \<not> is_hidden_or_system e \<and> stayed fs fs' (?src e)) ?es = []"
    unfolding run_post_def by auto
  from out have none_failed: "\<not> (\<not> isdir fs (?src e) \<and> \<not> is_hidden_or_system e \<and>
      stayed fs fs' (?src e))" if "e \<in> set ?es" for e
    using that by (auto simp: filter_empty_conv)
  have "isdir fs' (?src e) \<or> is_hidden_or_system e" if e: "e \<in> set (listdir fs' base)" for e
  proof -
    from e have v: "valid_name e" and ex': "path_exists fs' (?src e)"
      by (rule listdir_valid, rule listdir_exists)
    have in_es: "e \<in> set ?es"
    proof (rule ccontr)
      assume n: "e \<notin> set ?es"
      from frame[OF v n] ex' have "path_exists fs (?src e)"
        by (simp add: stayed_def path_exists_def)
      with v have "e \<in> set ?es" by (simp add: set_listdir path_exists_iff)
      with n show False by contradiction
    qed
    from fate[OF in_es] ex' have "stayed fs fs' (?src e)"
      by (auto simp: moved_def)
    with none_failed[OF in_es] show ?thesis by (simp add: isd)
  qed
  then have "organize_entries h' base (listdir fs' base) (initial_summary, [], fs') =
      Some (initial_summary, [], fs')"
    by (intro organize_entries_all_skipped) blast
  moreover have "isdir fs' base" using dir by (simp add: isd)
  ultimately show ?thesis by (simp add: organize_files_def)
qed

lemma print_initial_summary: "print_summary initial_summary = [AlreadyClean]"
  by (simp add: print_summary_def summary_values_def sum_initial_summary)

lemma initial_summary_zero: "\<forall>n\<in>set (summary_values initial_summary). n = 0"
  by (simp add: summary_values_def initial_summary_def)

text \<open>
  C5: if a run of the program on a file system ended with status 0 and printed no
  failure report, then a second run with the same arguments on the file system it left
  moves nothing: it leaves the file system as it found it, its summary has only zeros,
  and it prints the message that the folder is already clean.
\<close>

theorem idempotence:
  assumes "distinct (map fst fs0)"
    and "main h fs0 argv = Some (0, out1, fs1)"
    and "\<forall>m\<in>set out1. \<not> is_failure_report m"
  shows "\<exists>target summary.
      main h fs1 argv = Some (0, [Scanning target, AlreadyClean, Done], fs1) \<and>
      organize_files h fs1 target = Some (Inr (summary, [], fs1)) \<and>
      (\<forall>n\<in>set (summary_values summary). n = 0) \<and>
      print_summary summary = [AlreadyClean]"
proof -
  from assms(2) obtain target fs summary out where
    len: "length argv = 2"
    and val: "validate_path h fs0 (argv ! 1) = Inr target"
    and cre: "create_category_folders h fs0 target = (fs, None)"
    and run: "organize_files h fs target = Some (Inr (summary, out, fs1))"
    and out1: "out1 = [Scanning target] @ out @ print_summary summary @ [Done]"
    by (rule main_status_0)
  from create_folders_None[OF cre[unfolded create_category_folders_def]] assms(1)
  have wf: "distinct (map fst fs)"
    and keep: "\<And>p k. map_of fs0 p = Some k \<Longrightarrow> map_of fs p = Some k"
    and folders: "\<forall>c\<in>set CATEGORIES. isdir fs (join target c)"
    by blast+
  from validate_path_Inr[OF val] have "isdir fs0 target" by blast
  then have dir: "isdir fs target" using keep by (simp add: isdir_def)
  from organize_files_run[OF wf dir, of h] run
  have post: "run_post target (listdir fs target) (initial_summary, [], fs) (summary, out, fs1)"
    by auto
  then have reports: "\<forall>w\<in>set out. is_failure_report w"
    and isd: "\<And>p. isdir fs1 p = isdir fs p"
    unfolding run_post_def by auto
  from assms(3) out1 have "\<forall>w\<in>set out. \<not> is_failure_report w" by simp
  with reports have "out = []" by (cases out) auto
  with run have run': "organize_files h fs target = Some (Inr (summary, [], fs1))" by simp
  have second: "organize_files h fs1 target = Some (Inr (initial_summary, [], fs1))"
    using wf dir run' by (rule nothing_left)
  have "validate_path h fs1 (argv ! 1) = Inr target"
    using val by (rule validate_path_again) (simp add: isd dir)
  moreover have "create_category_folders h fs1 target = (fs1, None)"
    unfolding create_category_folders_def
    by (rule create_folders_present) (simp add: isd folders)
  ultimately have "main h fs1 argv =
      Some (0, [Scanning target] @ [] @ print_summary initial_summary @ [Done], fs1)"
    using len second by (intro main_after_provisioning)
  then have "main h fs1 argv = Some (0, [Scanning target, AlreadyClean, Done], fs1)"
    by (simp add: print_initial_summary)
  with second initial_summary_zero print_initial_summary show ?thesis by blast
qed

subsection \<open>The scenarios\<close>

lemma provisioned_wf:
  "distinct (map fst provisioned_fs)" "isdir provisioned_fs ''/d''"
  by code_simp+

lemma refused_run:
  "organize_files refusing_host provisioned_fs ''/d'' =
     Some (Inr ([(''Images'', 1), (''Videos'', 0), (''PDFs'', 0), (''Documents'', 0),
                 (''Code'', 0), (''Others'', 1)],
                [PermissionDenied ''notes.txt''], partly_organized_fs))"
  by code_simp

lemma clean_run:
  "organize_files scenario_host provisioned_fs ''/d'' =
     Some (Inr ([(''Images'', 1), (''Videos'', 0), (''PDFs'', 0), (''Documents'', 1),
                 (''Code'', 0), (''Others'', 1)],
                [], organized_fs))"
  by code_simp

lemma scenario_provisioning:
  "validate_path refusing_host scenario_fs ''/d'' = Inr ''/d''"
  "create_category_folders refusing_host scenario_fs ''/d'' = (provisioned_fs, None)"
  by code_simp+

theorem partial_failure_isolation_witness:
  "organize_files refusing_host provisioned_fs ''/d'' =
     Some (Inr ([(''Images'', 1), (''Videos'', 0), (''PDFs'', 0), (''Documents'', 0),
                 (''Code'', 0), (''Others'', 1)],
                [PermissionDenied ''notes.txt''], partly_organized_fs)) \<and>
   stayed provisioned_fs partly_organized_fs ''/d/notes.txt'' \<and>
   moved provisioned_fs partly_organized_fs ''/d/archive.zip'' \<and>
   main refusing_host scenario_fs [''organizer.py'', ''/d''] =
     Some (0, [Scanning ''/d'', PermissionDenied ''notes.txt'',
               SummaryTable [(''Images'', 1), (''Others'', 1)] 2, Done],
           partly_organized_fs)"
proof -
  let ?S = "[(''Images'', 1), (''Videos'', 0), (''PDFs'', 0), (''Documents'', 0),
             (''Code'', 0), (''Others'', 1::nat)]"
  from partial_failure_isolation[OF provisioned_wf, of refusing_host]
  obtain summary out fs' where
    run: "organize_files refusing_host provisioned_fs ''/d'' = Some (Inr (summary, out, fs'))"
    and m: "\<forall>fs0 argv.
          length argv = 2 \<and> validate_path refusing_host fs0 (argv ! 1) = Inr ''/d'' \<and>
          create_category_folders refusing_host fs0 ''/d'' = (provisioned_fs, None) \<longrightarrow>
          main refusing_host fs0 argv =
            Some (0, [Scanning ''/d''] @ out @ print_summary summary @ [Done], fs')"
    by blast
  from run refused_run have eq: "summary = ?S" "out = [PermissionDenied ''notes.txt'']"
    "fs' = partly_organized_fs"
    by simp_all
  have "main refusing_host scenario_fs [''organizer.py'', ''/d''] =
      Some (0, [Scanning ''/d''] @ out @ print_summary summary @ [Done], fs')"
    using m scenario_provisioning by simp
  moreover have "print_summary ?S = [SummaryTable [(''Images'', 1), (''Others'', 1)] 2]"
    by code_simp
  moreover have "stayed provisioned_fs partly_organized_fs ''/d/notes.txt''"
    by code_simp
  moreover have "moved provisioned_fs partly_organized_fs ''/d/archive.zip''"
    by code_simp
  ultimately show ?thesis using refused_run by (simp add: eq)
qed

theorem total_conservation_witness:
  "organize_files refusing_host provisioned_fs ''/d'' =
     Some (Inr ([(''Images'', 1), (''Videos'', 0), (''PDFs'', 0), (''Documents'', 0),
                 (''Code'', 0), (''Others'', 1)],
                [PermissionDenied ''notes.txt''], partly_organized_fs)) \<and>
   non_directory_entries provisioned_fs ''/d'' =
     [''photo.JPG'', ''notes.txt'', ''archive.zip'', ''.DS_Store''] \<and>
   sum_list (summary_values [(''Images'', 1), (''Videos'', 0), (''PDFs'', 0), (''Documents'', 0),
                 (''Code'', 0), (''Others'', 1)]) +
     length (filter is_hidden_or_system (non_directory_entries provisioned_fs ''/d'')) +
     length (filter is_failure_report [PermissionDenied ''notes.txt'']) = 4"
proof -
  have nd: "non_directory_entries provisioned_fs ''/d'' =
     [''photo.JPG'', ''notes.txt'', ''archive.zip'', ''.DS_Store'']"
    by code_simp
  from total_conservation[OF provisioned_wf, of refusing_host]
  obtain summary out fs' where
    run: "organize_files refusing_host provisioned_fs ''/d'' = Some (Inr (summary, out, fs'))"
    and eq: "sum_list (summary_values summary) +
        length (filter is_hidden_or_system (non_directory_entries provisioned_fs ''/d'')) +
        length (filter is_failure_report out) =
      length (non_directory_entries provisioned_fs ''/d'')"
    by blast
  from run refused_run have "summary = [(''Images'', 1), (''Videos'', 0), (''PDFs'', 0),
      (''Documents'', 0), (''Code'', 0), (''Others'', 1)]" "out = [PermissionDenied ''notes.txt'']"
    by simp_all
  with eq have "sum_list (summary_values [(''Images'', 1), (''Videos'', 0), (''PDFs'', 0),
      (''Documents'', 0), (''Code'', 0), (''Others'', 1)]) +
     length (filter is_hidden_or_system (non_directory_entries provisioned_fs ''/d'')) +
     length (filter is_failure_report [PermissionDenied ''notes.txt'']) =
     length (non_directory_entries provisioned_fs ''/d'')"
    by simp
  also have "\<dots> = 4" by (simp add: nd)
  finally show ?thesis using refused_run nd by blast
qed

theorem hidden_file_exclusion_witness:
  "organize_files scenario_host provisioned_fs ''/d'' =
     Some (Inr ([(''Images'', 1), (''Videos'', 0), (''PDFs'', 0), (''Documents'', 1),
                 (''Code'', 0), (''Others'', 1)],
                [], organized_fs)) \<and>
   ''.DS_Store'' = CHR ''.'' # ''DS_Store'' \<and>
   stayed provisioned_fs organized_fs (join ''/d'' ''.DS_Store'')"
proof -
  from hidden_file_exclusion[OF provisioned_wf, of scenario_host]
  obtain summary out fs' where
    run: "organize_files scenario_host provisioned_fs ''/d'' = Some (Inr (summary, out, fs'))"
    and st: "\<forall>e\<in>set (listdir provisioned_fs ''/d'').
          (\<exists>r. e = CHR ''.'' # r) \<longrightarrow> stayed provisioned_fs fs' (join ''/d'' e)"
    by blast
  from run clean_run have fs': "fs' = organized_fs" by simp
  have "''.DS_Store'' \<in> set (listdir provisioned_fs ''/d'')" by code_simp
  moreover have h: "''.DS_Store'' = CHR ''.'' # ''DS_Store''" by simp
  ultimately have "stayed provisioned_fs organized_fs (join ''/d'' ''.DS_Store'')"
    using st fs' by blast
  with clean_run h show ?thesis by blast
qed

lemma first_run:
  "main scenario_host scenario_fs [''organizer.py'', ''/d''] =
     Some (0, [Scanning ''/d'',
               SummaryTable [(''Images'', 1), (''Documents'', 1), (''Others'', 1)] 3, Done],
           organized_fs)"
  by code_simp

theorem idempotence_witness:
  "main scenario_host scenario_fs [''organizer.py'', ''/d''] =
     Some (0, [Scanning ''/d'',
               SummaryTable [(''Images'', 1), (''Documents'', 1), (''Others'', 1)] 3, Done],
           organized_fs) \<and>
   (\<exists>target. main scenario_host organized_fs [''organizer.py'', ''/d''] =
     Some (0, [Scanning target, AlreadyClean, Done], organized_fs))"
proof -
  have wf: "distinct (map fst scenario_fs)" by code_simp
  have quiet: "\<forall>m\<in>set [Scanning ''/d'',
               SummaryTable [(''Images'', 1), (''Documents'', 1), (''Others'', 1)] 3, Done].
      \<not> is_failure_report m"
    by (simp add: is_failure_report_def)
  from idempotence[OF wf first_run quiet]
  have "\<exists>target. main scenario_host organized_fs [''organizer.py'', ''/d''] =
     Some (0, [Scanning target, AlreadyClean, Done], organized_fs)"
    by blast
  with first_run show ?thesis by blast
qed

end
